theory Spec2Isabelle
  imports Main
begin

section \<open>JavaScript string and number helpers used by the sources\<close>

text \<open>
  Strings are \<open>char list\<close>; tags, keys and environment values are ASCII in this
  program. Sizes, clock readings and counters are integers. An expiry read by
  \<^verbatim>\<open>parseInt\<close> is a double: \<open>number\<close> holds the values such a double can have once NaN
  is set apart, the two infinities and the integers (a double beyond \<open>2^53\<close> is an
  integer), ordered as the doubles are; \<open>-0\<close> is not told apart from \<open>0\<close>, which
  \<^verbatim>\<open>x || 0\<close> and the comparisons do not tell apart either.
\<close>

datatype number = NegInfinity | Finite int | Infinity

instantiation number :: linorder
begin

fun less_eq_number :: "number \<Rightarrow> number \<Rightarrow> bool" where
  "less_eq_number NegInfinity y = True"
| "less_eq_number (Finite i) NegInfinity = False"
| "less_eq_number (Finite i) (Finite j) = (i \<le> j)"
| "less_eq_number (Finite i) Infinity = True"
| "less_eq_number Infinity Infinity = True"
| "less_eq_number Infinity y = False"

definition less_number :: "number \<Rightarrow> number \<Rightarrow> bool" where
  "less_number x y = (x \<le> y \<and> \<not> y \<le> x)"

instance
proof
  fix x y z :: number
  show "(x < y) = (x \<le> y \<and> \<not> y \<le> x)" by (simp add: less_number_def)
  show "x \<le> x" by (cases x) simp_all
  show "x \<le> y \<Longrightarrow> y \<le> z \<Longrightarrow> x \<le> z" by (cases x; cases y; cases z) simp_all
  show "x \<le> y \<Longrightarrow> y \<le> x \<Longrightarrow> x = y" by (cases x; cases y) simp_all
  show "x \<le> y \<or> y \<le> x" by (cases x; cases y) auto
qed

end

text \<open>\<^verbatim>\<open>String.prototype.startsWith\<close>.\<close>

fun startsWith :: "string \<Rightarrow> string \<Rightarrow> bool" where
  "startsWith s [] = True"
| "startsWith [] (p # ps) = False"
| "startsWith (c # cs) (p # ps) = (c = p \<and> startsWith cs ps)"

text \<open>\<^verbatim>\<open>s.substring(n)\<close> for \<open>0 \<le> n\<close>.\<close>

definition substring :: "string \<Rightarrow> nat \<Rightarrow> string" where
  "substring s n = drop n s"

text \<open>
  \<^verbatim>\<open>x || 0\<close> on the result of \<^verbatim>\<open>parseInt\<close>, where \<open>None\<close> is NaN: NaN and 0 are both
  falsy.
\<close>

definition orZero :: "number option \<Rightarrow> number" where
  "orZero x = (case x of None \<Rightarrow> Finite 0 | Some n \<Rightarrow> n)"

text \<open>
  \<^verbatim>\<open>Date.now() > maxpiry * 1000\<close>. The product is rounded to a double, which does not
  change the comparison: the clock reading is an integer below \<open>2^53\<close>, every integer up
  to there is a double, and rounding keeps the order.
\<close>

definition clockPast :: "int \<Rightarrow> number \<Rightarrow> bool" where
  "clockPast now maxpiry =
     (case maxpiry of
        NegInfinity \<Rightarrow> True
      | Finite i \<Rightarrow> now > i * 1000
      | Infinity \<Rightarrow> False)"

text \<open>\<^verbatim>\<open>Number.prototype.toString\<close> on an integer of magnitude below \<open>10^21\<close>.\<close>

fun natDigits :: "nat \<Rightarrow> string" where
  "natDigits n = (if n < 10 then [char_of (48 + n)] else natDigits (n div 10) @ [char_of (48 + n mod 10)])"

definition numberToString :: "int \<Rightarrow> string" where
  "numberToString i = (if i < 0 then CHR ''-'' # natDigits (nat (- i)) else natDigits (nat i))"

section \<open>The advertisement resolver: \<^verbatim>\<open>src/utils/getMetadata.ts\<close>\<close>

text \<open>A wallet output: \<^verbatim>\<open>tags\<close> is optional.\<close>

record walletOutput =
  tags :: "string list option"

record listOutputsArgs =
  basket :: string
  queryTags :: "string list"
  tagQueryMode :: string
  includeTags :: bool
  limit :: int
  offset :: int

record ObjectMetadata =
  sizeBytes :: int
  contentType :: string

record FileMetadata =
  objectIdentifier :: string
  name :: string
  sizeText :: string
  fmContentType :: string
  expiryTime :: number

datatype resolveError =
    NoAdvertisementFound
  | AdvertisementExpired
  | DecoderFailure
  | WalletFailure string
  | StorageFailure string

text \<open>
  Lines 39 to 44 of the loop body: an output without tags, or lacking either tag, is
  skipped; otherwise the text after the \<^verbatim>\<open>object_identifier_\<close> prefix and the parsed
  expiry are read off. \<open>parseInt\<close> is the runtime's \<^verbatim>\<open>parseInt(_, 10)\<close> and is a
  parameter: it gives NaN (\<open>None\<close>) or a double, rounded where the numeral is beyond
  \<open>2^53\<close>.
\<close>

definition candidate :: "(string \<Rightarrow> number option) \<Rightarrow> walletOutput \<Rightarrow> (string \<times> number) option" where
  "candidate parseInt out =
     (case tags out of
        None \<Rightarrow> None
      | Some ts \<Rightarrow>
          (case (find (\<lambda>t. startsWith t ''object_identifier_'') ts,
                 find (\<lambda>t. startsWith t ''expiry_time_'') ts) of
             (Some objectIdTag, Some expiryTag) \<Rightarrow>
               Some (substring objectIdTag (length ''object_identifier_''),
                     orZero (parseInt (substring expiryTag (length ''expiry_time_''))))
           | _ \<Rightarrow> None))"

text \<open>
  Lines 46 to 49 (\<open>update\<close>), one round of the loop (\<open>scanStep\<close>) and the loop
  (\<open>scanFrom\<close>) on the pair \<open>(maxpiry, objectIdentifier)\<close>; \<open>None\<close> is \<^verbatim>\<open>undefined\<close>.
  The decoder \<^verbatim>\<open>Utils.toUTF8(Utils.toArray(_, 'hex'))\<close> belongs to the SDK and is a
  parameter; it raises an error (\<open>None\<close>) on text that is not hexadecimal. The loop has
  no \<^verbatim>\<open>catch\<close>: the error ends the scan and the resolver.
\<close>

definition update ::
  "(string \<Rightarrow> string option) \<Rightarrow> number \<times> string option \<Rightarrow> string \<times> number \<Rightarrow>
   resolveError + number \<times> string option" where
  "update decode acc c =
     (case c of (idHex, expiryNum) \<Rightarrow>
        if expiryNum > fst acc then
          (case decode idHex of
             None \<Rightarrow> Inl DecoderFailure
           | Some oid \<Rightarrow> Inr (expiryNum, Some oid))
        else Inr acc)"

definition scanStep ::
  "(string \<Rightarrow> number option) \<Rightarrow> (string \<Rightarrow> string option) \<Rightarrow> number \<times> string option \<Rightarrow>
   walletOutput \<Rightarrow> resolveError + number \<times> string option" where
  "scanStep parseInt decode acc out =
     (case candidate parseInt out of
        None \<Rightarrow> Inr acc
      | Some c \<Rightarrow> update decode acc c)"

fun scanFrom ::
  "(string \<Rightarrow> number option) \<Rightarrow> (string \<Rightarrow> string option) \<Rightarrow> number \<times> string option \<Rightarrow>
   walletOutput list \<Rightarrow> resolveError + number \<times> string option" where
  "scanFrom parseInt decode acc [] = Inr acc"
| "scanFrom parseInt decode acc (out # outputs) =
     (case scanStep parseInt decode acc out of
        Inl e \<Rightarrow> Inl e
      | Inr acc' \<Rightarrow> scanFrom parseInt decode acc' outputs)"

definition scan ::
  "(string \<Rightarrow> number option) \<Rightarrow> (string \<Rightarrow> string option) \<Rightarrow> walletOutput list \<Rightarrow>
   resolveError + number \<times> string option" where
  "scan parseInt decode outputs = scanFrom parseInt decode (Finite 0, None) outputs"

text \<open>The candidates of a list of outputs, and the loop read on them.\<close>

definition candidates :: "(string \<Rightarrow> number option) \<Rightarrow> walletOutput list \<Rightarrow> (string \<times> number) list" where
  "candidates parseInt outputs = List.map_filter (candidate parseInt) outputs"

fun updateAll ::
  "(string \<Rightarrow> string option) \<Rightarrow> number \<times> string option \<Rightarrow> (string \<times> number) list \<Rightarrow>
   resolveError + number \<times> string option" where
  "updateAll decode acc [] = Inr acc"
| "updateAll decode acc (c # cs) =
     (case update decode acc c of
        Inl e \<Rightarrow> Inl e
      | Inr acc' \<Rightarrow> updateAll decode acc' cs)"

text \<open>
  The resolver; \<open>listOutputsQuery\<close> is the argument of \<^verbatim>\<open>wallet.listOutputs\<close> (lines 25
  to 32). Its surroundings are parameters: \<open>toHexUtf8\<close> and \<open>decode\<close> are the SDK
  codecs, \<open>parseInt\<close> is the runtime's, \<open>listOutputs\<close> is the wallet query, \<open>now\<close> is
  \<^verbatim>\<open>Date.now()\<close> in milliseconds and \<open>getObjectMetadata\<close> is
  \<^verbatim>\<open>getStorageProvider().getObjectMetadata\<close>, which fails when the provider cannot be
  built or when the metadata call fails.
\<close>

definition listOutputsQuery ::
  "(string \<Rightarrow> string) \<Rightarrow> string \<Rightarrow> string \<Rightarrow> int option \<Rightarrow> int option \<Rightarrow> listOutputsArgs" where
  "listOutputsQuery toHexUtf8 uhrpUrl uploaderIdentityKey lim off =
     \<lparr> basket = ''uhrp advertisements'',
       queryTags = [''uhrp_url_'' @ toHexUtf8 uhrpUrl,
                    ''uploader_identity_key_'' @ uploaderIdentityKey],
       tagQueryMode = ''all'',
       includeTags = True,
       limit = (case lim of Some l \<Rightarrow> l | None \<Rightarrow> 200),
       offset = (case off of Some o' \<Rightarrow> o' | None \<Rightarrow> 0) \<rparr>"

definition getMetadata ::
  "(string \<Rightarrow> string) \<Rightarrow> (string \<Rightarrow> number option) \<Rightarrow> (string \<Rightarrow> string option) \<Rightarrow>
   (listOutputsArgs \<Rightarrow> string + walletOutput list) \<Rightarrow> int \<Rightarrow>
   (string \<Rightarrow> string + ObjectMetadata) \<Rightarrow>
   string \<Rightarrow> string \<Rightarrow> int option \<Rightarrow> int option \<Rightarrow> resolveError + FileMetadata" where
  "getMetadata toHexUtf8 parseInt decode listOutputs now getObjectMetadata uhrpUrl uploaderIdentityKey lim off =
     (case listOutputs (listOutputsQuery toHexUtf8 uhrpUrl uploaderIdentityKey lim off) of
        Inl e \<Rightarrow> Inl (WalletFailure e)
      | Inr outputs \<Rightarrow>
          (case scan parseInt decode outputs of
             Inl e \<Rightarrow> Inl e
           | Inr (maxpiry, objId) \<Rightarrow>
               (case objId of
                  None \<Rightarrow> Inl NoAdvertisementFound
                | Some oid \<Rightarrow>
                    if oid = [] then Inl NoAdvertisementFound
                    else if clockPast now maxpiry then Inl AdvertisementExpired
                    else
                      (let objectKey = ''cdn/'' @ oid in
                       case getObjectMetadata objectKey of
                         Inl e \<Rightarrow> Inl (StorageFailure e)
                       | Inr metadata \<Rightarrow>
                           Inr \<lparr> objectIdentifier = oid,
                                 name = objectKey,
                                 sizeText = numberToString (sizeBytes metadata),
                                 fmContentType = contentType metadata,
                                 expiryTime = maxpiry \<rparr>))))"

text \<open>
  Stand-ins for the runtime's parser and the SDK codecs, used where an example needs a
  concrete one. \<open>parseInt10\<close> skips leading ASCII white space, reads one optional sign
  and the longest run of decimal digits, gives NaN when there is no digit, and rounds the
  integer read to the nearest double, ties to even (\<open>roundToDouble\<close>), as the runtime
  does for a numeral of at most 20 digits. The codecs take two hexadecimal digits per
  character of ASCII text; \<open>hexDecode\<close> raises on text with a character that is no
  hexadecimal digit, and reads an odd number of digits with a leading 0 added.
\<close>

definition isDigit :: "char \<Rightarrow> bool" where
  "isDigit c = (48 \<le> (of_char c :: nat) \<and> (of_char c :: nat) \<le> 57)"

definition isWhiteSpace :: "char \<Rightarrow> bool" where
  "isWhiteSpace c = ((of_char c :: nat) \<in> {9, 10, 11, 12, 13, 32})"

definition digitValue :: "char \<Rightarrow> int" where
  "digitValue c = int (of_char c) - 48"

function bitLength :: "int \<Rightarrow> nat" where
  "bitLength a = (if a \<le> 0 then 0 else Suc (bitLength (a div 2)))"
  by pat_completeness auto
termination
  by (relation "measure nat") auto

definition roundToDouble :: "int \<Rightarrow> number" where
  "roundToDouble n =
     (let a = \<bar>n\<bar> in
      if a < 2 ^ 53 then Finite n
      else
        (let e = bitLength a - 53;
             q = a div 2 ^ e;
             r = a mod 2 ^ e;
             q' = (if r > 2 ^ (e - 1) \<or> (r = 2 ^ (e - 1) \<and> odd q) then q + 1 else q);
             v = q' * 2 ^ e
         in if v \<ge> 2 ^ 1024 then (if n < 0 then NegInfinity else Infinity)
            else Finite (if n < 0 then - v else v)))"

definition parseInt10 :: "string \<Rightarrow> number option" where
  "parseInt10 s =
     (let t = dropWhile isWhiteSpace s;
          neg = (case t of [] \<Rightarrow> False | c # _ \<Rightarrow> c = CHR ''-'');
          u = (case t of [] \<Rightarrow> [] | c # r \<Rightarrow> if c = CHR ''-'' \<or> c = CHR ''+'' then r else t);
          ds = takeWhile isDigit u
      in if ds = [] then None
         else let n = foldl (\<lambda>a c. 10 * a + digitValue c) 0 ds
              in Some (roundToDouble (if neg then - n else n)))"

definition isHexDigit :: "char \<Rightarrow> bool" where
  "isHexDigit c =
     (let n = (of_char c :: nat) in
      (48 \<le> n \<and> n \<le> 57) \<or> (97 \<le> n \<and> n \<le> 102) \<or> (65 \<le> n \<and> n \<le> 70))"

definition hexDigitValue :: "char \<Rightarrow> nat" where
  "hexDigitValue c =
     (let n = of_char c in
      if 48 \<le> n \<and> n \<le> 57 then n - 48
      else if 97 \<le> n \<and> n \<le> 102 then n - 87
      else if 65 \<le> n \<and> n \<le> 70 then n - 55
      else 0)"

fun hexToText :: "string \<Rightarrow> string" where
  "hexToText (a # b # r) = char_of (16 * hexDigitValue a + hexDigitValue b) # hexToText r"
| "hexToText _ = []"

definition hexDecode :: "string \<Rightarrow> string option" where
  "hexDecode s =
     (if list_all isHexDigit s
      then Some (hexToText (if even (length s) then s else CHR ''0'' # s))
      else None)"

definition hexDigitChar :: "nat \<Rightarrow> char" where
  "hexDigitChar n = (if n < 10 then char_of (48 + n) else char_of (87 + n))"

definition textToHex :: "string \<Rightarrow> string" where
  "textToHex s = concat (map (\<lambda>c. [hexDigitChar (of_char c div 16), hexDigitChar (of_char c mod 16)]) s)"

text \<open>Example candidate sets.\<close>

definition adv :: "string \<Rightarrow> string \<Rightarrow> walletOutput" where
  "adv idHex expiry = \<lparr> tags = Some [''uhrp_url_58'', ''object_identifier_'' @ idHex, ''expiry_time_'' @ expiry] \<rparr>"

definition exampleOutputs :: "walletOutput list" where
  "exampleOutputs =
     [\<lparr> tags = None \<rparr>, adv ''6161'' ''soon'', adv ''6262'' ''1000'',
      \<lparr> tags = Some [''object_identifier_6363''] \<rparr>, adv ''6464'' ''2000'', adv ''6565'' ''2000'']"

definition roundedOutputs :: "walletOutput list" where
  "roundedOutputs = [adv ''6161'' ''9007199254740992'', adv ''6262'' ''9007199254740993'']"


section \<open>The storage providers: \<^verbatim>\<open>src/utils/storage\<close>\<close>

text \<open>
  \<^verbatim>\<open>String.prototype.toLowerCase\<close> on ASCII text. No character outside ASCII lower-cases
  to a letter of \<^verbatim>\<open>gcs\<close>, \<^verbatim>\<open>aws\<close> or of a metadata key written here.
\<close>

definition toLowerChar :: "char \<Rightarrow> char" where
  "toLowerChar c =
     (let n = (of_char c :: nat) in if 65 \<le> n \<and> n \<le> 90 then char_of (n + 32) else c)"

definition toLowerCase :: "string \<Rightarrow> string" where
  "toLowerCase s = map toLowerChar s"

text \<open>
  A value read from \<^verbatim>\<open>process.env\<close> or from an optional field is \<^verbatim>\<open>undefined\<close>
  (\<open>None\<close>) or a string; \<^verbatim>\<open>a || b\<close> takes \<open>b\<close> when \<open>a\<close> is \<^verbatim>\<open>undefined\<close> or empty.
\<close>

definition truthy :: "string option \<Rightarrow> bool" where
  "truthy x = (case x of None \<Rightarrow> False | Some s \<Rightarrow> s \<noteq> [])"

definition orDefault :: "string option \<Rightarrow> string \<Rightarrow> string" where
  "orDefault x d = (case x of None \<Rightarrow> d | Some s \<Rightarrow> if s = [] then d else s)"

type_synonym procEnv = "string \<rightharpoonup> string"

subsection \<open>Types of \<^verbatim>\<open>types.ts\<close> and of the cloud requests\<close>

record UploadParams =
  size_p :: int
  expiryTime_p :: int
  objectIdentifier_p :: string
  uploaderIdentityKey_p :: string

record UploadResponse =
  uploadURL :: string
  requiredHeaders :: "(string \<times> string) list"
  formFields :: "(string \<times> string) list option"

datatype providerError =
    InvalidTimeValue
  | MissingGCSVariables
  | MissingS3BucketName
  | UnsupportedProvider string
  | CloudFailure string

text \<open>The options of \<^verbatim>\<open>bucketFile.getSignedUrl\<close> (Google Cloud Storage).\<close>

record gcsSignedUrlConfig =
  version :: string
  action :: string
  expires :: int
  extensionHeaders :: "(string \<times> string) list"

text \<open>The options of \<^verbatim>\<open>createPresignedPost\<close> (S3).\<close>

datatype postCondition =
    ContentLengthRange int int
  | StartsWith string string

record presignedPostOptions =
  Bucket :: string
  Key :: string
  Conditions :: "postCondition list"
  Fields :: "(string \<times> string) list"
  Expires :: int

text \<open>The answer of \<^verbatim>\<open>HeadObjectCommand\<close> and the input of \<^verbatim>\<open>CopyObjectCommand\<close>.\<close>

record headObjectOutput =
  ContentLength :: "int option"
  ContentType :: "string option"
  Metadata :: "(string \<rightharpoonup> string) option"

record copyObjectInput =
  Bucket_c :: string
  Key_c :: string
  CopySource :: string
  Metadata_c :: "string \<rightharpoonup> string"
  MetadataDirective :: string
  ContentType_c :: "string option"

subsection \<open>\<^verbatim>\<open>providers/gcs.ts\<close>\<close>

text \<open>
  \<^verbatim>\<open>new Date(ms).toISOString()\<close> is the runtime's and is the parameter \<open>toISOString\<close>;
  it raises a RangeError (\<open>None\<close>) on a time value out of range. \<open>now\<close> is
  \<^verbatim>\<open>Date.now()\<close>.
\<close>

definition customTimeOf :: "(int \<Rightarrow> string option) \<Rightarrow> int \<Rightarrow> string option" where
  "customTimeOf toISOString expiryTime' = toISOString ((expiryTime' + 300) * 1000)"

definition gcsExtensionHeaders :: "UploadParams \<Rightarrow> string \<Rightarrow> (string \<times> string) list" where
  "gcsExtensionHeaders p customTime =
     [(''content-length'', numberToString (size_p p)),
      (''x-goog-meta-uploaderidentitykey'', uploaderIdentityKey_p p),
      (''x-goog-custom-time'', customTime)]"

definition gcsSignedUrlOptions :: "int \<Rightarrow> UploadParams \<Rightarrow> string \<Rightarrow> gcsSignedUrlConfig" where
  "gcsSignedUrlOptions now p customTime =
     \<lparr> version = ''v4'',
       action = ''write'',
       expires = now + 604000 * 1000,
       extensionHeaders = gcsExtensionHeaders p customTime \<rparr>"

definition GCS_generateUploadURL ::
  "(int \<Rightarrow> string option) \<Rightarrow> int \<Rightarrow> (string \<Rightarrow> gcsSignedUrlConfig \<Rightarrow> string + string) \<Rightarrow>
   UploadParams \<Rightarrow> providerError + UploadResponse" where
  "GCS_generateUploadURL toISOString now getSignedUrl p =
     (let bucketFile = ''cdn/'' @ objectIdentifier_p p in
      case customTimeOf toISOString (expiryTime_p p) of
        None \<Rightarrow> Inl InvalidTimeValue
      | Some customTime \<Rightarrow>
          (case getSignedUrl bucketFile (gcsSignedUrlOptions now p customTime) of
             Inl e \<Rightarrow> Inl (CloudFailure e)
           | Inr url \<Rightarrow>
               Inr \<lparr> uploadURL = url,
                     requiredHeaders = gcsExtensionHeaders p customTime,
                     formFields = None \<rparr>))"

definition GCS_constructor :: "procEnv \<Rightarrow> providerError + string \<times> string" where
  "GCS_constructor env =
     (let bucketName = orDefault (env ''STORAGE_BUCKET_NAME'') (orDefault (env ''GCP_BUCKET_NAME'') '''') in
      if bucketName = [] \<or> \<not> truthy (env ''GCP_PROJECT_ID'') then Inl MissingGCSVariables
      else Inr (bucketName, the (env ''GCP_PROJECT_ID'')))"

subsection \<open>\<^verbatim>\<open>providers/s3.ts\<close>\<close>

definition s3PresignedPostOptions :: "string \<Rightarrow> UploadParams \<Rightarrow> string \<Rightarrow> presignedPostOptions" where
  "s3PresignedPostOptions bucketName p customTime =
     \<lparr> Bucket = bucketName,
       Key = ''cdn/'' @ objectIdentifier_p p,
       Conditions =
         [ContentLengthRange (size_p p) (size_p p),
          StartsWith ''$x-amz-meta-uploaderidentitykey'' '''',
          StartsWith ''$x-amz-meta-customtime'' ''''],
       Fields =
         [(''x-amz-meta-uploaderidentitykey'', uploaderIdentityKey_p p),
          (''x-amz-meta-customtime'', customTime)],
       Expires = 604800 \<rparr>"

definition S3_generateUploadURL ::
  "(int \<Rightarrow> string option) \<Rightarrow>
   (presignedPostOptions \<Rightarrow> string + string \<times> (string \<times> string) list) \<Rightarrow>
   string \<Rightarrow> UploadParams \<Rightarrow> providerError + UploadResponse" where
  "S3_generateUploadURL toISOString createPresignedPost bucketName p =
     (case customTimeOf toISOString (expiryTime_p p) of
        None \<Rightarrow> Inl InvalidTimeValue
      | Some customTime \<Rightarrow>
          (case createPresignedPost (s3PresignedPostOptions bucketName p customTime) of
             Inl e \<Rightarrow> Inl (CloudFailure e)
           | Inr (url, postFields) \<Rightarrow>
               Inr \<lparr> uploadURL = url,
                     requiredHeaders = [(''content-type'', ''multipart/form-data'')],
                     formFields = Some postFields \<rparr>))"

text \<open>
  \<^verbatim>\<open>updateObjectMetadata\<close>. The patch is the list of its own keys with their values as
  strings, in the order of \<^verbatim>\<open>Object.keys\<close>; a key occurs once. An object is the map of
  its own properties. \<open>assign\<close> is the assignment \<^verbatim>\<open>obj[key] = value\<close> of a string to a
  plain object: it writes the own property, except under the key \<^verbatim>\<open>__proto__\<close> when the
  object has no own property of that name, where the assignment reaches the setter
  inherited from \<^verbatim>\<open>Object.prototype\<close>, which ignores a string and writes nothing.
  \<open>s3NewMetadata\<close> is lines 182 to 195: the current metadata (\<open>metadataOrEmpty\<close> is
  \<^verbatim>\<open>currentObject.Metadata || {}\<close>, copied by the spread), then \<^verbatim>\<open>customtime\<close> when the
  patch has a non-empty \<^verbatim>\<open>customTime\<close>, then every other key lower-cased (\<open>patchStep\<close> is
  the body of the \<^verbatim>\<open>forEach\<close>).
\<close>

definition assign :: "(string \<rightharpoonup> string) \<Rightarrow> string \<Rightarrow> string \<Rightarrow> (string \<rightharpoonup> string)" where
  "assign obj k v = (if k = ''__proto__'' \<and> obj k = None then obj else obj(k \<mapsto> v))"

definition patchStep :: "(string \<rightharpoonup> string) \<Rightarrow> string \<times> string \<Rightarrow> (string \<rightharpoonup> string)" where
  "patchStep m e = (if fst e \<noteq> ''customTime'' then assign m (toLowerCase (fst e)) (snd e) else m)"

definition metadataOrEmpty :: "(string \<rightharpoonup> string) option \<Rightarrow> (string \<rightharpoonup> string)" where
  "metadataOrEmpty current = (case current of None \<Rightarrow> Map.empty | Some m \<Rightarrow> m)"

definition s3NewMetadata ::
  "(string \<times> string) list \<Rightarrow> (string \<rightharpoonup> string) option \<Rightarrow> (string \<rightharpoonup> string)" where
  "s3NewMetadata patch current =
     (let m0 = metadataOrEmpty current;
          m1 = (if truthy (map_of patch ''customTime'')
                then m0(''customtime'' \<mapsto> the (map_of patch ''customTime''))
                else m0)
      in foldl patchStep m1 patch)"

definition s3CopyCommand ::
  "string \<Rightarrow> string \<Rightarrow> headObjectOutput \<Rightarrow> (string \<times> string) list \<Rightarrow> copyObjectInput" where
  "s3CopyCommand bucketName objectKey currentObject patch =
     \<lparr> Bucket_c = bucketName,
       Key_c = objectKey,
       CopySource = bucketName @ ''/'' @ objectKey,
       Metadata_c = s3NewMetadata patch (Metadata currentObject),
       MetadataDirective = ''REPLACE'',
       ContentType_c = ContentType currentObject \<rparr>"

definition S3_updateObjectMetadata ::
  "(string \<Rightarrow> string \<Rightarrow> string + headObjectOutput) \<Rightarrow> (copyObjectInput \<Rightarrow> string + unit) \<Rightarrow>
   string \<Rightarrow> string \<Rightarrow> (string \<times> string) list \<Rightarrow> providerError + unit" where
  "S3_updateObjectMetadata headObject copyObject bucketName objectKey patch =
     (case headObject bucketName objectKey of
        Inl e \<Rightarrow> Inl (CloudFailure e)
      | Inr currentObject \<Rightarrow>
          (case copyObject (s3CopyCommand bucketName objectKey currentObject patch) of
             Inl e \<Rightarrow> Inl (CloudFailure e)
           | Inr u \<Rightarrow> Inr ()))"

definition S3_constructor :: "procEnv \<Rightarrow> providerError + string \<times> string" where
  "S3_constructor env =
     (let bucketName = orDefault (env ''STORAGE_BUCKET_NAME'') (orDefault (env ''AWS_BUCKET_NAME'') '''') in
      if bucketName = [] then Inl MissingS3BucketName
      else Inr (bucketName, orDefault (env ''AWS_REGION'') ''us-west-2''))"

subsection \<open>\<^verbatim>\<open>getStorageProvider\<close> of the storage index module\<close>

text \<open>
  A provider instance holds what its constructor read: the bucket name and the project
  (GCS) or the region (S3). The module variable \<^verbatim>\<open>storageProvider\<close> is the state, \<open>None\<close>
  for \<^verbatim>\<open>null\<close>; a call returns its result and the new state.
\<close>

datatype StorageProvider =
    GCSStorageProvider string string
  | S3StorageProvider string string

definition getStorageProvider ::
  "procEnv \<Rightarrow> StorageProvider option \<Rightarrow> (providerError + StorageProvider) \<times> StorageProvider option" where
  "getStorageProvider env storageProvider =
     (case storageProvider of
        Some provider \<Rightarrow> (Inr provider, storageProvider)
      | None \<Rightarrow>
          (let providerType = toLowerCase (orDefault (env ''STORAGE_PROVIDER'') ''gcs'') in
           if providerType = ''gcs'' then
             (case GCS_constructor env of
                Inl e \<Rightarrow> (Inl e, None)
              | Inr (b, pr) \<Rightarrow> (Inr (GCSStorageProvider b pr), Some (GCSStorageProvider b pr)))
           else if providerType = ''aws'' then
             (case S3_constructor env of
                Inl e \<Rightarrow> (Inl e, None)
              | Inr (b, rg) \<Rightarrow> (Inr (S3StorageProvider b rg), Some (S3StorageProvider b rg)))
           else (Inl (UnsupportedProvider providerType), None)))"

definition resetStorageProvider :: "StorageProvider option \<Rightarrow> StorageProvider option" where
  "resetStorageProvider storageProvider = None"

text \<open>Example surroundings for the providers.\<close>

definition exampleParams :: UploadParams where
  "exampleParams =
     \<lparr> size_p = 1024, expiryTime_p = 3600, objectIdentifier_p = ''abc'',
       uploaderIdentityKey_p = ''02ab'' \<rparr>"

definition exampleClock :: "int \<Rightarrow> string option" where
  "exampleClock ms = (if ms = 3900000 then Some ''1970-01-01T01:05:00.000Z'' else None)"

definition exampleSignedUrl :: "string \<Rightarrow> gcsSignedUrlConfig \<Rightarrow> string + string" where
  "exampleSignedUrl file cfg = Inr (''https://storage.googleapis.com/bucket/'' @ file)"

definition examplePresignedPost :: "presignedPostOptions \<Rightarrow> string + string \<times> (string \<times> string) list" where
  "examplePresignedPost opts =
     Inr (''https://'' @ Bucket opts @ ''.s3.amazonaws.com/'',
          Fields opts @ [(''bucket'', Bucket opts), (''key'', Key opts)])"

definition exampleGcsGrant :: UploadResponse where
  "exampleGcsGrant =
     \<lparr> uploadURL = ''https://storage.googleapis.com/bucket/cdn/abc'',
       requiredHeaders =
         [(''content-length'', ''1024''),
          (''x-goog-meta-uploaderidentitykey'', ''02ab''),
          (''x-goog-custom-time'', ''1970-01-01T01:05:00.000Z'')],
       formFields = None \<rparr>"

definition exampleS3Grant :: UploadResponse where
  "exampleS3Grant =
     \<lparr> uploadURL = ''https://bucket.s3.amazonaws.com/'',
       requiredHeaders = [(''content-type'', ''multipart/form-data'')],
       formFields =
         Some [(''x-amz-meta-uploaderidentitykey'', ''02ab''),
               (''x-amz-meta-customtime'', ''1970-01-01T01:05:00.000Z''),
               (''bucket'', ''bucket''), (''key'', ''cdn/abc'')] \<rparr>"

definition exampleHead :: headObjectOutput where
  "exampleHead =
     \<lparr> ContentLength = Some 1024, ContentType = Some ''text/plain'',
       Metadata = Some (Map.empty(''uploaderidentitykey'' \<mapsto> ''02ab'',
                                  ''customtime'' \<mapsto> ''2030-01-01T00:00:00.000Z'')) \<rparr>"

definition examplePatch :: "(string \<times> string) list" where
  "examplePatch = [(''customTime'', ''2031-01-01T00:00:00.000Z''), (''Owner'', ''me'')]"

definition gcsEnv :: procEnv where
  "gcsEnv = Map.empty(''GCP_BUCKET_NAME'' \<mapsto> ''bucket'', ''GCP_PROJECT_ID'' \<mapsto> ''project'')"

definition awsEnv :: procEnv where
  "awsEnv = Map.empty(''STORAGE_PROVIDER'' \<mapsto> ''AWS'', ''AWS_BUCKET_NAME'' \<mapsto> ''bucket'')"

section \<open>The ingestion pipeline: \<^verbatim>\<open>k8s/s3-event-handler/src/event-handler.js\<close>\<close>

text \<open>
  The handler talks to S3, to SQS and to the advertise endpoint. Every such call is
  logged, in order, with whether it succeeded; what a call answers is given by the
  surroundings and may depend on everything that happened before (the log). The two
  counters and the log make up the state.
\<close>

record notificationData =
  adminToken_n :: "string option"
  uhrpUrl_n :: string
  uploaderIdentityKey_n :: string
  objectIdentifier_n :: string
  expiryTime_n :: "int option"
  fileSize_n :: "int option"

datatype cloudCall =
    HeadObject string string
  | GetObject string string
  | AdvertisePost notificationData
  | DeleteMessage string
  | ReceiveMessage

datatype handlerError =
    MissingUploaderIdentityKey
  | S3Failure string
  | PostFailure string
  | SqsFailure string
  | JsonSyntaxError
  | TypeError
  | URIError

type_synonym callLog = "(cloudCall \<times> bool) list"

record handlerState =
  processedEvents :: nat
  processingErrors :: nat
  calls :: callLog

text \<open>
  An S3 event record: \<open>eventName\<close> and the pair of \<^verbatim>\<open>s3.bucket.name\<close> and
  \<^verbatim>\<open>s3.object.key\<close>, each \<open>None\<close> when reading it raises a TypeError. A message body after
  \<^verbatim>\<open>JSON.parse\<close>: one on which parsing or reading \<^verbatim>\<open>body.Records\<close> raises, one without
  \<^verbatim>\<open>Records\<close>, or one with its records.
\<close>

record s3EventRecord =
  eventName :: "string option"
  s3 :: "(string \<times> string) option"

datatype parsedBody =
    Unparseable
  | NoRecords
  | Records "s3EventRecord list"

record sqsMessage =
  Body :: parsedBody
  ReceiptHandle :: string

record surroundings =
  s3Head :: "callLog \<Rightarrow> string \<Rightarrow> string \<Rightarrow> string + headObjectOutput"
  s3Get :: "callLog \<Rightarrow> string \<Rightarrow> string \<Rightarrow> string + string"
  axiosPost :: "callLog \<Rightarrow> notificationData \<Rightarrow> string + unit"
  sqsDelete :: "callLog \<Rightarrow> string \<Rightarrow> string + unit"
  sqsReceive :: "callLog \<Rightarrow> string + sqsMessage list"
  decodeURIComponent :: "string \<Rightarrow> string option"
  uhrpUrlForHash :: "string \<Rightarrow> string"
  dateGetTime :: "string \<Rightarrow> int option"
  dateNow :: "callLog \<Rightarrow> int"
  ADMIN_TOKEN :: "string option"

definition logCall :: "handlerState \<Rightarrow> cloudCall \<Rightarrow> bool \<Rightarrow> handlerState" where
  "logCall s c ok = s\<lparr> calls := calls s @ [(c, ok)] \<rparr>"

text \<open>\<^verbatim>\<open>Math.round(ms / 1000)\<close> on an integer number of milliseconds.\<close>

definition roundSeconds :: "int \<Rightarrow> int" where
  "roundSeconds ms = (ms + 500) div 1000"

text \<open>\<^verbatim>\<open>objectKey.split('/').pop()\<close>.\<close>

definition lastSegment :: "string \<Rightarrow> string" where
  "lastSegment k = rev (takeWhile (\<lambda>c. c \<noteq> CHR ''/'') (rev k))"

text \<open>\<^verbatim>\<open>key.replace(/\+/g, ' ')\<close>.\<close>

definition plusToSpace :: "string \<Rightarrow> string" where
  "plusToSpace k = map (\<lambda>c. if c = CHR ''+'' then CHR '' '' else c) k"

text \<open>Lines 108 to 118: the uploader identity key of the metadata, when it is there.\<close>

definition uploaderOf :: "headObjectOutput \<Rightarrow> string option" where
  "uploaderOf metadata =
     (case Metadata metadata of
        None \<Rightarrow> None
      | Some m \<Rightarrow> if truthy (m ''uploaderidentitykey'') then m ''uploaderidentitykey'' else None)"

text \<open>Lines 121 to 123: the expiry in seconds; \<open>None\<close> is NaN, for a date that does not parse.\<close>

definition expiryOf :: "surroundings \<Rightarrow> callLog \<Rightarrow> headObjectOutput \<Rightarrow> int option" where
  "expiryOf env lg metadata =
     (let customtime = (case Metadata metadata of None \<Rightarrow> None | Some m \<Rightarrow> m ''customtime'') in
      if truthy customtime
      then map_option roundSeconds (dateGetTime env (the customtime))
      else Some (roundSeconds (dateNow env lg) + 30 * 24 * 60 * 60))"

text \<open>The body of the \<^verbatim>\<open>try\<close> block of \<^verbatim>\<open>processS3Object\<close>, lines 93 to 179.\<close>

definition processS3Object_try ::
  "surroundings \<Rightarrow> string \<Rightarrow> string \<Rightarrow> handlerState \<Rightarrow> (handlerError + unit) \<times> handlerState" where
  "processS3Object_try env bucketName objectKey s =
     (case s3Head env (calls s) bucketName objectKey of
        Inl e \<Rightarrow> (Inl (S3Failure e), logCall s (HeadObject bucketName objectKey) False)
      | Inr metadata \<Rightarrow>
          (let s1 = logCall s (HeadObject bucketName objectKey) True in
           case uploaderOf metadata of
             None \<Rightarrow> (Inl MissingUploaderIdentityKey, s1)
           | Some uploaderIdentityKey \<Rightarrow>
               (let expiryTime' = expiryOf env (calls s1) metadata in
                case s3Get env (calls s1) bucketName objectKey of
                  Inl e \<Rightarrow> (Inl (S3Failure e), logCall s1 (GetObject bucketName objectKey) False)
                | Inr content \<Rightarrow>
                    (let s2 = logCall s1 (GetObject bucketName objectKey) True;
                         data = \<lparr> adminToken_n = ADMIN_TOKEN env,
                                  uhrpUrl_n = uhrpUrlForHash env content,
                                  uploaderIdentityKey_n = uploaderIdentityKey,
                                  objectIdentifier_n = lastSegment objectKey,
                                  expiryTime_n = expiryTime',
                                  fileSize_n = ContentLength metadata \<rparr>
                     in case axiosPost env (calls s2) data of
                          Inl e \<Rightarrow> (Inl (PostFailure e), logCall s2 (AdvertisePost data) False)
                        | Inr u \<Rightarrow>
                            (Inr (),
                             (logCall s2 (AdvertisePost data) True)
                               \<lparr> processedEvents := processedEvents s + 1 \<rparr>)))))"

text \<open>
  \<^verbatim>\<open>processS3Object\<close>: a key outside \<^verbatim>\<open>cdn/\<close> returns at once; otherwise the \<^verbatim>\<open>try\<close>
  block runs and its \<^verbatim>\<open>catch\<close> counts the error and raises it again.
\<close>

definition processS3Object ::
  "surroundings \<Rightarrow> string \<Rightarrow> string \<Rightarrow> handlerState \<Rightarrow> (handlerError + unit) \<times> handlerState" where
  "processS3Object env bucketName objectKey s =
     (if \<not> startsWith objectKey ''cdn/'' then (Inr (), s)
      else
        (case processS3Object_try env bucketName objectKey s of
           (Inl e, s') \<Rightarrow> (Inl e, s'\<lparr> processingErrors := processingErrors s' + 1 \<rparr>)
         | (Inr u, s') \<Rightarrow> (Inr (), s')))"

text \<open>One round of the loop over \<^verbatim>\<open>body.Records\<close>, lines 196 to 201, and the loop.\<close>

definition processRecord ::
  "surroundings \<Rightarrow> s3EventRecord \<Rightarrow> handlerState \<Rightarrow> (handlerError + unit) \<times> handlerState" where
  "processRecord env r s =
     (case eventName r of
        None \<Rightarrow> (Inl TypeError, s)
      | Some n \<Rightarrow>
          if startsWith n ''ObjectCreated:'' then
            (case s3 r of
               None \<Rightarrow> (Inl TypeError, s)
             | Some (bucketName, rawKey) \<Rightarrow>
                 (case decodeURIComponent env (plusToSpace rawKey) of
                    None \<Rightarrow> (Inl URIError, s)
                  | Some objectKey \<Rightarrow> processS3Object env bucketName objectKey s))
          else (Inr (), s))"

fun processRecords ::
  "surroundings \<Rightarrow> s3EventRecord list \<Rightarrow> handlerState \<Rightarrow> (handlerError + unit) \<times> handlerState" where
  "processRecords env [] s = (Inr (), s)"
| "processRecords env (r # rs) s =
     (case processRecord env r s of
        (Inl e, s') \<Rightarrow> (Inl e, s')
      | (Inr u, s') \<Rightarrow> processRecords env rs s')"

text \<open>The \<^verbatim>\<open>try\<close> block of \<^verbatim>\<open>processMessage\<close>, lines 191 to 210.\<close>

definition processMessage_try ::
  "surroundings \<Rightarrow> sqsMessage \<Rightarrow> handlerState \<Rightarrow> (handlerError + unit) \<times> handlerState" where
  "processMessage_try env message s =
     (case Body message of
        Unparseable \<Rightarrow> (Inl JsonSyntaxError, s)
      | body \<Rightarrow>
          (case (case body of Records rs \<Rightarrow> processRecords env rs s | _ \<Rightarrow> (Inr (), s)) of
             (Inl e, s') \<Rightarrow> (Inl e, s')
           | (Inr u, s') \<Rightarrow>
               (case sqsDelete env (calls s') (ReceiptHandle message) of
                  Inl e \<Rightarrow> (Inl (SqsFailure e), logCall s' (DeleteMessage (ReceiptHandle message)) False)
                | Inr u' \<Rightarrow> (Inr (), logCall s' (DeleteMessage (ReceiptHandle message)) True))))"

text \<open>
  \<^verbatim>\<open>processMessage\<close>: the \<^verbatim>\<open>catch\<close> counts the error and swallows it. The result is kept
  of the type of a call that could raise, so that not raising is a statement.
\<close>

definition processMessage ::
  "surroundings \<Rightarrow> sqsMessage \<Rightarrow> handlerState \<Rightarrow> (handlerError + unit) \<times> handlerState" where
  "processMessage env message s =
     (case processMessage_try env message s of
        (Inl e, s') \<Rightarrow> (Inr (), s'\<lparr> processingErrors := processingErrors s' + 1 \<rparr>)
      | (Inr u, s') \<Rightarrow> (Inr (), s'))"

text \<open>
  A record that is an object-created event for a key under \<^verbatim>\<open>cdn/\<close>: the condition of
  line 196 together with the negation of the one of line 87.
\<close>

definition needsRegistration :: "surroundings \<Rightarrow> s3EventRecord \<Rightarrow> bool" where
  "needsRegistration env r =
     (case eventName r of
        None \<Rightarrow> False
      | Some n \<Rightarrow>
          startsWith n ''ObjectCreated:'' \<and>
          (case s3 r of
             None \<Rightarrow> False
           | Some (bucketName, rawKey) \<Rightarrow>
               (case decodeURIComponent env (plusToSpace rawKey) of
                  None \<Rightarrow> False
                | Some objectKey \<Rightarrow> startsWith objectKey ''cdn/'')))"

definition isDelete :: "cloudCall \<times> bool \<Rightarrow> bool" where
  "isDelete c = (case fst c of DeleteMessage h \<Rightarrow> True | _ \<Rightarrow> False)"

definition isAdvertise :: "cloudCall \<times> bool \<Rightarrow> bool" where
  "isAdvertise c = (case fst c of AdvertisePost d \<Rightarrow> True | _ \<Rightarrow> False)"

definition succeeded :: "cloudCall \<times> bool \<Rightarrow> bool" where
  "succeeded c = snd c"

definition recordsOf :: "sqsMessage \<Rightarrow> s3EventRecord list" where
  "recordsOf message = (case Body message of Records rs \<Rightarrow> rs | _ \<Rightarrow> [])"

text \<open>
  \<^verbatim>\<open>Promise.all(response.Messages.map(processMessage))\<close> starts every message of the batch,
  each running up to its first \<^verbatim>\<open>await\<close> of a call, and then lets them take turns: when
  an awaited call answers, the message waiting for it runs on to its next such \<^verbatim>\<open>await\<close>
  or to its end. \<open>taskState\<close> is where a message waits: at the \<^verbatim>\<open>await\<close> of line 98, of
  line 134, of line 167 or of line 210, with the local variables it needs later and the
  records still to come, or nowhere once its promise has settled. A call is logged, and
  the surroundings are asked for its answer, when the answer arrives.
\<close>

datatype taskState =
    AwaitHead string string "s3EventRecord list"
  | AwaitGet string string headObjectOutput string "int option" "s3EventRecord list"
  | AwaitPost notificationData "s3EventRecord list"
  | AwaitDelete
  | Settled

definition countError :: "handlerState \<Rightarrow> handlerState" where
  "countError s = s\<lparr> processingErrors := processingErrors s + 1 \<rparr>"

text \<open>
  The loop over \<^verbatim>\<open>body.Records\<close> from a given record on, up to the next \<^verbatim>\<open>await\<close> of a
  call: the metadata fetch of the first object-created record under \<^verbatim>\<open>cdn/\<close>, or the
  delete when no such record is left; \<open>Inl\<close> when a record raises before that.
\<close>

fun startRecords :: "surroundings \<Rightarrow> s3EventRecord list \<Rightarrow> handlerError + taskState" where
  "startRecords env [] = Inr AwaitDelete"
| "startRecords env (r # rs) =
     (case eventName r of
        None \<Rightarrow> Inl TypeError
      | Some n \<Rightarrow>
          if startsWith n ''ObjectCreated:'' then
            (case s3 r of
               None \<Rightarrow> Inl TypeError
             | Some (bucketName, rawKey) \<Rightarrow>
                 (case decodeURIComponent env (plusToSpace rawKey) of
                    None \<Rightarrow> Inl URIError
                  | Some objectKey \<Rightarrow>
                      if startsWith objectKey ''cdn/'' then Inr (AwaitHead bucketName objectKey rs)
                      else startRecords env rs))
          else startRecords env rs)"

text \<open>
  The \<^verbatim>\<open>catch\<close> of \<^verbatim>\<open>processMessage\<close>, lines 212 to 216: an error is counted and the
  promise of the message settles.
\<close>

definition settle :: "(handlerError + taskState) \<times> handlerState \<Rightarrow> taskState \<times> handlerState" where
  "settle outcome =
     (case outcome of
        (Inl e, s) \<Rightarrow> (Settled, countError s)
      | (Inr st, s) \<Rightarrow> (st, s))"

text \<open>The start of \<^verbatim>\<open>processMessage\<close>, up to its first \<^verbatim>\<open>await\<close> of a call.\<close>

definition startMessage :: "surroundings \<Rightarrow> sqsMessage \<Rightarrow> handlerState \<Rightarrow> taskState \<times> handlerState" where
  "startMessage env message s =
     settle (case Body message of
               Unparseable \<Rightarrow> Inl JsonSyntaxError
             | NoRecords \<Rightarrow> Inr AwaitDelete
             | Records rs \<Rightarrow> startRecords env rs,
             s)"

text \<open>
  What the \<^verbatim>\<open>try\<close> block of \<^verbatim>\<open>processMessage\<close> does when the call a message waits for
  answers, up to its next \<^verbatim>\<open>await\<close>. An error raised inside \<^verbatim>\<open>processS3Object\<close> has
  been counted once by the \<^verbatim>\<open>catch\<close> of lines 181 to 185 before it arrives here.
\<close>

definition resume_try ::
  "surroundings \<Rightarrow> sqsMessage \<Rightarrow> taskState \<Rightarrow> handlerState \<Rightarrow> (handlerError + taskState) \<times> handlerState" where
  "resume_try env message st s =
     (case st of
        AwaitHead bucketName objectKey rest \<Rightarrow>
          (case s3Head env (calls s) bucketName objectKey of
             Inl e \<Rightarrow>
               (Inl (S3Failure e), countError (logCall s (HeadObject bucketName objectKey) False))
           | Inr metadata \<Rightarrow>
               (let s1 = logCall s (HeadObject bucketName objectKey) True in
                case uploaderOf metadata of
                  None \<Rightarrow> (Inl MissingUploaderIdentityKey, countError s1)
                | Some uploaderIdentityKey \<Rightarrow>
                    (Inr (AwaitGet bucketName objectKey metadata uploaderIdentityKey
                            (expiryOf env (calls s1) metadata) rest),
                     s1)))
      | AwaitGet bucketName objectKey metadata uploaderIdentityKey expiryTime' rest \<Rightarrow>
          (case s3Get env (calls s) bucketName objectKey of
             Inl e \<Rightarrow>
               (Inl (S3Failure e), countError (logCall s (GetObject bucketName objectKey) False))
           | Inr content \<Rightarrow>
               (Inr (AwaitPost \<lparr> adminToken_n = ADMIN_TOKEN env,
                                 uhrpUrl_n = uhrpUrlForHash env content,
                                 uploaderIdentityKey_n = uploaderIdentityKey,
                                 objectIdentifier_n = lastSegment objectKey,
                                 expiryTime_n = expiryTime',
                                 fileSize_n = ContentLength metadata \<rparr> rest),
                logCall s (GetObject bucketName objectKey) True))
      | AwaitPost data rest \<Rightarrow>
          (case axiosPost env (calls s) data of
             Inl e \<Rightarrow> (Inl (PostFailure e), countError (logCall s (AdvertisePost data) False))
           | Inr u \<Rightarrow>
               (startRecords env rest,
                (logCall s (AdvertisePost data) True)
                  \<lparr> processedEvents := processedEvents s + 1 \<rparr>))
      | AwaitDelete \<Rightarrow>
          (case sqsDelete env (calls s) (ReceiptHandle message) of
             Inl e \<Rightarrow> (Inl (SqsFailure e), logCall s (DeleteMessage (ReceiptHandle message)) False)
           | Inr u \<Rightarrow> (Inr Settled, logCall s (DeleteMessage (ReceiptHandle message)) True))
      | Settled \<Rightarrow> (Inr Settled, s))"

definition resume :: "surroundings \<Rightarrow> sqsMessage \<Rightarrow> taskState \<Rightarrow> handlerState \<Rightarrow> taskState \<times> handlerState" where
  "resume env message st s = settle (resume_try env message st s)"

text \<open>
  The end of \<^verbatim>\<open>processMessage\<close> once the loop over the records has ended, lines 205 to
  216, as a state: an error of the loop is counted, otherwise the delete runs.
\<close>

definition afterRecords ::
  "surroundings \<Rightarrow> sqsMessage \<Rightarrow> (handlerError + unit) \<times> handlerState \<Rightarrow> handlerState" where
  "afterRecords env message outcome =
     (case outcome of
        (Inl e, s') \<Rightarrow> countError s'
      | (Inr u, s') \<Rightarrow> snd (resume env message AwaitDelete s'))"

text \<open>
  The batch: the shared state and one \<open>taskState\<close> for each message. \<open>startAll\<close> is the
  \<^verbatim>\<open>map\<close> of line 238, which starts the messages in order. A schedule is the order in
  which the awaited calls answer, each entry naming the message, by its place in the
  batch, whose call answers next; an entry that names a settled message or no message
  delivers nothing.
\<close>

fun startAll ::
  "surroundings \<Rightarrow> sqsMessage list \<Rightarrow> handlerState \<Rightarrow> handlerState \<times> taskState list" where
  "startAll env [] s = (s, [])"
| "startAll env (m # ms) s =
     (case startMessage env m s of
        (st, s') \<Rightarrow> (case startAll env ms s' of (s'', tasks) \<Rightarrow> (s'', st # tasks)))"

definition deliver ::
  "surroundings \<Rightarrow> sqsMessage list \<Rightarrow> handlerState \<times> taskState list \<Rightarrow> nat \<Rightarrow>
   handlerState \<times> taskState list" where
  "deliver env messages cfg i =
     (case cfg of
        (s, tasks) \<Rightarrow>
          if i < length tasks \<and> i < length messages then
            (case resume env (messages ! i) (tasks ! i) s of
               (st', s') \<Rightarrow> (s', tasks[i := st']))
          else (s, tasks))"

definition runSchedule ::
  "surroundings \<Rightarrow> sqsMessage list \<Rightarrow> nat list \<Rightarrow> handlerState \<times> taskState list \<Rightarrow>
   handlerState \<times> taskState list" where
  "runSchedule env messages sched cfg = foldl (deliver env messages) cfg sched"

text \<open>
  One round of the \<^verbatim>\<open>while (true)\<close> of \<^verbatim>\<open>pollSQS\<close> under a schedule: \<open>None\<close> when the
  schedule ends before every message has settled, so that \<^verbatim>\<open>Promise.all\<close> has not
  answered. No message's promise is ever rejected (\<open>settle\<close>), so the \<^verbatim>\<open>catch\<close> of lines
  242 to 247 is reached from the receive call alone. \<open>pollSQS\<close> is as many rounds as it
  is given schedules.
\<close>

fun isSettled :: "taskState \<Rightarrow> bool" where
  "isSettled Settled = True"
| "isSettled st = False"

definition pollOnce :: "surroundings \<Rightarrow> nat list \<Rightarrow> handlerState \<Rightarrow> handlerState option" where
  "pollOnce env sched s =
     (case sqsReceive env (calls s) of
        Inl e \<Rightarrow> Some (countError (logCall s ReceiveMessage False))
      | Inr messages \<Rightarrow>
          (case runSchedule env messages sched
                  (startAll env messages (logCall s ReceiveMessage True)) of
             (s', tasks) \<Rightarrow> if list_all isSettled tasks then Some s' else None))"


text \<open>
  The number of answers a waiting message can still need (\<open>steps\<close>), and a schedule that
  gives every message of a batch as many turns as it can need (\<open>fair\<close>).
\<close>

fun steps :: "taskState \<Rightarrow> nat" where
  "steps (AwaitHead bucketName objectKey rest) = 3 * length rest + 4"
| "steps (AwaitGet bucketName objectKey metadata uploaderIdentityKey expiryTime' rest) = 3 * length rest + 3"
| "steps (AwaitPost data rest) = 3 * length rest + 2"
| "steps AwaitDelete = 1"
| "steps Settled = 0"







text \<open>Example surroundings, messages and state for the pipeline.\<close>

definition exampleSurroundings :: surroundings where
  "exampleSurroundings =
     \<lparr> s3Head = (\<lambda>lg b k. if k = ''cdn/abc'' then Inr exampleHead
                           else if k = ''cdn/raw'' then Inr (exampleHead\<lparr> Metadata := None \<rparr>)
                           else Inl ''NotFound''),
       s3Get = (\<lambda>lg b k. Inr ''hello''),
       axiosPost = (\<lambda>lg d. Inr ()),
       sqsDelete = (\<lambda>lg h. Inr ()),
       sqsReceive = (\<lambda>lg. Inr []),
       decodeURIComponent = Some,
       uhrpUrlForHash = (\<lambda>content. ''uhrp-'' @ content),
       dateGetTime = (\<lambda>t. if t = ''2030-01-01T00:00:00.000Z'' then Some 1893456000000 else None),
       dateNow = (\<lambda>lg. 1700000000000),
       ADMIN_TOKEN = Some ''token'' \<rparr>"

definition createdMessage :: "string \<Rightarrow> sqsMessage" where
  "createdMessage rawKey =
     \<lparr> Body = Records [\<lparr> eventName = Some ''ObjectCreated:Put'', s3 = Some (''bucket'', rawKey) \<rparr>],
       ReceiptHandle = ''receipt-'' @ rawKey \<rparr>"

definition initialState :: handlerState where
  "initialState = \<lparr> processedEvents = 0, processingErrors = 0, calls = [] \<rparr>"

definition exampleNotification :: notificationData where
  "exampleNotification =
     \<lparr> adminToken_n = Some ''token'', uhrpUrl_n = ''uhrp-hello'', uploaderIdentityKey_n = ''02ab'',
       objectIdentifier_n = ''abc'', expiryTime_n = Some 1893456000, fileSize_n = Some 1024 \<rparr>"



section \<open>Properties of the advertisement resolver\<close>

lemma scanFrom_candidates:
  "scanFrom parseInt decode acc outs = updateAll decode acc (candidates parseInt outs)"
proof (induction outs arbitrary: acc)
  case Nil
  then show ?case by (simp add: candidates_def List.map_filter_simps)
next
  case (Cons out outs)
  show ?case
  proof (cases "candidate parseInt out")
    case None
    then show ?thesis using Cons
      by (simp add: candidates_def List.map_filter_simps scanStep_def)
  next
    case (Some c)
    then show ?thesis using Cons
      by (cases "update decode acc c")
         (simp_all add: candidates_def List.map_filter_simps scanStep_def)
  qed
qed

lemma update_gt:
  "m0 < snd c \<Longrightarrow>
   update decode (m0, s0) c =
     (case decode (fst c) of None \<Rightarrow> Inl DecoderFailure | Some oid \<Rightarrow> Inr (snd c, Some oid))"
  by (cases c) (simp add: update_def split: option.splits)

lemma update_le: "\<not> m0 < snd c \<Longrightarrow> update decode (m0, s0) c = Inr (m0, s0)"
  by (cases c) (simp add: update_def)

text \<open>
  The loop from any starting pair, when it runs to its end: if some candidate beats the
  starting expiry, the result is the first candidate of greatest expiry, decoded;
  otherwise nothing changes.
\<close>

lemma updateAll_result:
  "updateAll decode (m0, s0) cs = Inr (m, sel) \<Longrightarrow>
   (if \<exists>c \<in> set cs. m0 < snd c
    then m0 < m \<and> (\<forall>c \<in> set cs. snd c \<le> m) \<and>
         (\<exists>pre w post oid. cs = pre @ w # post \<and> snd w = m \<and>
            (\<forall>c \<in> set pre. snd c < m) \<and> decode (fst w) = Some oid \<and> sel = Some oid)
    else m = m0 \<and> sel = s0)"
proof (induction cs arbitrary: m0 s0)
  case Nil
  then show ?case by simp
next
  case (Cons c cs)
  show ?case
  proof (cases "m0 < snd c")
    case True
    have ex: "\<exists>c' \<in> set (c # cs). m0 < snd c'" using True by simp
    from Cons.prems True obtain oid0 where d0: "decode (fst c) = Some oid0"
      by (cases "decode (fst c)") (simp_all add: update_gt)
    then have step: "updateAll decode (snd c, Some oid0) cs = Inr (m, sel)"
      using Cons.prems True by (simp add: update_gt)
    note ih = Cons.IH [OF step]
    show ?thesis
    proof (cases "\<exists>c' \<in> set cs. snd c < snd c'")
      case T2: True
      from ih [unfolded if_P [OF T2]] obtain pre w post oid where
        h: "snd c < m" "\<forall>c' \<in> set cs. snd c' \<le> m" "cs = pre @ w # post" "snd w = m"
           "\<forall>c' \<in> set pre. snd c' < m" "decode (fst w) = Some oid" "sel = Some oid"
        by blast
      have "c # cs = (c # pre) @ w # post" using h(3) by simp
      moreover have "\<forall>c' \<in> set (c # pre). snd c' < m" using h(1,5) by simp
      ultimately have "\<exists>pre w post oid. c # cs = pre @ w # post \<and> snd w = m \<and>
            (\<forall>c \<in> set pre. snd c < m) \<and> decode (fst w) = Some oid \<and> sel = Some oid"
        using h(4,6,7) by blast
      moreover have "m0 < m" using True h(1) by (rule less_trans)
      moreover have "\<forall>c' \<in> set (c # cs). snd c' \<le> m" using h(1,2) by simp
      ultimately show ?thesis unfolding if_P [OF ex] by blast
    next
      case F2: False
      from ih [unfolded if_not_P [OF F2]] have h: "m = snd c" "sel = Some oid0"
        by blast+
      have "c # cs = [] @ c # cs" by simp
      moreover have "\<forall>c' \<in> set ([] :: (string \<times> number) list). snd c' < m" by simp
      ultimately have "\<exists>pre w post oid. c # cs = pre @ w # post \<and> snd w = m \<and>
            (\<forall>c \<in> set pre. snd c < m) \<and> decode (fst w) = Some oid \<and> sel = Some oid"
        using h d0 by blast
      moreover have "\<forall>c' \<in> set (c # cs). snd c' \<le> m"
        using F2 h(1) by (auto simp add: not_less)
      moreover have "m0 < m" using True h(1) by simp
      ultimately show ?thesis unfolding if_P [OF ex] by blast
    qed
  next
    case False
    then have step: "updateAll decode (m0, s0) cs = Inr (m, sel)"
      using Cons.prems by (simp add: update_le)
    note ih = Cons.IH [OF step]
    have cle: "snd c \<le> m0" using False by (simp add: not_less)
    show ?thesis
    proof (cases "\<exists>c' \<in> set cs. m0 < snd c'")
      case T2: True
      from ih [unfolded if_P [OF T2]] obtain pre w post oid where
        h: "m0 < m" "\<forall>c' \<in> set cs. snd c' \<le> m" "cs = pre @ w # post" "snd w = m"
           "\<forall>c' \<in> set pre. snd c' < m" "decode (fst w) = Some oid" "sel = Some oid"
        by blast
      have ex: "\<exists>c' \<in> set (c # cs). m0 < snd c'" using T2 by simp
      have clt: "snd c < m" using cle h(1) by (rule le_less_trans)
      have "c # cs = (c # pre) @ w # post" using h(3) by simp
      moreover have "\<forall>c' \<in> set (c # pre). snd c' < m" using clt h(5) by simp
      ultimately have "\<exists>pre w post oid. c # cs = pre @ w # post \<and> snd w = m \<and>
            (\<forall>c \<in> set pre. snd c < m) \<and> decode (fst w) = Some oid \<and> sel = Some oid"
        using h(4,6,7) by blast
      moreover have "\<forall>c' \<in> set (c # cs). snd c' \<le> m" using clt h(2) by simp
      ultimately show ?thesis unfolding if_P [OF ex] using h(1) by blast
    next
      case F2: False
      have nex: "\<not> (\<exists>c' \<in> set (c # cs). m0 < snd c')" using False F2 by simp
      from ih [unfolded if_not_P [OF F2]] show ?thesis unfolding if_not_P [OF nex] .
    qed
  qed
qed

text \<open>
  The loop ends early, and then with the decoder's error, exactly when the decoder raises
  on a candidate whose expiry is above the starting expiry and above that of every
  candidate before it.
\<close>

lemma updateAll_abort:
  "(\<exists>e. updateAll decode (m0, s0) cs = Inl e) \<longleftrightarrow>
   (\<exists>pre c post. cs = pre @ c # post \<and> m0 < snd c \<and> (\<forall>c' \<in> set pre. snd c' < snd c) \<and>
      decode (fst c) = None)"
proof (induction cs arbitrary: m0 s0)
  case Nil
  then show ?case by simp
next
  case (Cons x cs)
  show ?case
  proof (cases "m0 < snd x")
    case True
    show ?thesis
    proof (cases "decode (fst x)")
      case None
      then have l: "\<exists>e. updateAll decode (m0, s0) (x # cs) = Inl e"
        using True by (simp add: update_gt)
      have "x # cs = [] @ x # cs \<and> m0 < snd x \<and>
          (\<forall>c' \<in> set ([] :: (string \<times> number) list). snd c' < snd x) \<and> decode (fst x) = None"
        using True None by simp
      then have "\<exists>pre c post. x # cs = pre @ c # post \<and> m0 < snd c \<and>
          (\<forall>c' \<in> set pre. snd c' < snd c) \<and> decode (fst c) = None"
        by blast
      then show ?thesis using l by simp
    next
      case (Some oid)
      then have step: "updateAll decode (m0, s0) (x # cs) = updateAll decode (snd x, Some oid) cs"
        using True by (simp add: update_gt)
      note ih = Cons.IH [of "snd x" "Some oid"]
      show ?thesis unfolding step ih
      proof
        assume "\<exists>pre c post. cs = pre @ c # post \<and> snd x < snd c \<and>
            (\<forall>c' \<in> set pre. snd c' < snd c) \<and> decode (fst c) = None"
        then obtain pre c post where
          h: "cs = pre @ c # post" "snd x < snd c" "\<forall>c' \<in> set pre. snd c' < snd c"
             "decode (fst c) = None"
          by blast
        have "x # cs = (x # pre) @ c # post" using h(1) by simp
        moreover have "m0 < snd c" using True h(2) by (rule less_trans)
        moreover have "\<forall>c' \<in> set (x # pre). snd c' < snd c" using h(2,3) by simp
        ultimately show "\<exists>pre c post. x # cs = pre @ c # post \<and> m0 < snd c \<and>
            (\<forall>c' \<in> set pre. snd c' < snd c) \<and> decode (fst c) = None"
          using h(4) by blast
      next
        assume "\<exists>pre c post. x # cs = pre @ c # post \<and> m0 < snd c \<and>
            (\<forall>c' \<in> set pre. snd c' < snd c) \<and> decode (fst c) = None"
        then obtain pre c post where
          h: "x # cs = pre @ c # post" "m0 < snd c" "\<forall>c' \<in> set pre. snd c' < snd c"
             "decode (fst c) = None"
          by blast
        have "pre \<noteq> []"
        proof
          assume "pre = []"
          then have "c = x" using h(1) by simp
          then show False using h(4) Some by simp
        qed
        then obtain pre' where pre: "pre = x # pre'" "cs = pre' @ c # post"
          using h(1) by (cases pre) simp_all
        have "snd x < snd c" "\<forall>c' \<in> set pre'. snd c' < snd c"
          using h(3) pre(1) by simp_all
        then show "\<exists>pre c post. cs = pre @ c # post \<and> snd x < snd c \<and>
            (\<forall>c' \<in> set pre. snd c' < snd c) \<and> decode (fst c) = None"
          using pre(2) h(4) by blast
      qed
    qed
  next
    case False
    then have step: "updateAll decode (m0, s0) (x # cs) = updateAll decode (m0, s0) cs"
      by (simp add: update_le)
    have xle: "snd x \<le> m0" using False by (simp add: not_less)
    note ih = Cons.IH [of m0 s0]
    show ?thesis unfolding step ih
    proof
      assume "\<exists>pre c post. cs = pre @ c # post \<and> m0 < snd c \<and>
          (\<forall>c' \<in> set pre. snd c' < snd c) \<and> decode (fst c) = None"
      then obtain pre c post where
        h: "cs = pre @ c # post" "m0 < snd c" "\<forall>c' \<in> set pre. snd c' < snd c"
           "decode (fst c) = None"
        by blast
      have "x # cs = (x # pre) @ c # post" using h(1) by simp
      moreover have "snd x < snd c" using xle h(2) by (rule le_less_trans)
      then have "\<forall>c' \<in> set (x # pre). snd c' < snd c" using h(3) by simp
      ultimately show "\<exists>pre c post. x # cs = pre @ c # post \<and> m0 < snd c \<and>
          (\<forall>c' \<in> set pre. snd c' < snd c) \<and> decode (fst c) = None"
        using h(2,4) by blast
    next
      assume "\<exists>pre c post. x # cs = pre @ c # post \<and> m0 < snd c \<and>
          (\<forall>c' \<in> set pre. snd c' < snd c) \<and> decode (fst c) = None"
      then obtain pre c post where
        h: "x # cs = pre @ c # post" "m0 < snd c" "\<forall>c' \<in> set pre. snd c' < snd c"
           "decode (fst c) = None"
        by blast
      have "pre \<noteq> []"
      proof
        assume "pre = []"
        then have "c = x" using h(1) by simp
        then show False using h(2) False by simp
      qed
      then obtain pre' where pre: "pre = x # pre'" "cs = pre' @ c # post"
        using h(1) by (cases pre) simp_all
      have "\<forall>c' \<in> set pre'. snd c' < snd c" using h(3) pre(1) by simp
      then show "\<exists>pre c post. cs = pre @ c # post \<and> m0 < snd c \<and>
          (\<forall>c' \<in> set pre. snd c' < snd c) \<and> decode (fst c) = None"
        using pre(2) h(2,4) by blast
    qed
  qed
qed

lemma updateAll_error: "updateAll decode acc cs = Inl e \<Longrightarrow> e = DecoderFailure"
proof (induction cs arbitrary: acc)
  case Nil
  then show ?case by simp
next
  case (Cons c cs)
  obtain idHex expiryNum where c: "c = (idHex, expiryNum)" by (cases c)
  show ?case
  proof (cases "update decode acc c")
    case (Inl e')
    then have "e' = DecoderFailure"
      unfolding c by (simp add: update_def split: if_splits option.splits)
    then show ?thesis using Cons.prems Inl by simp
  next
    case (Inr acc')
    then show ?thesis using Cons by simp
  qed
qed

lemma scan_first_maximum:
  "scan parseInt decode outputs = Inr (m, sel) \<Longrightarrow>
   (if \<exists>c \<in> set (candidates parseInt outputs). Finite 0 < snd c
    then Finite 0 < m \<and> (\<forall>c \<in> set (candidates parseInt outputs). snd c \<le> m) \<and>
         (\<exists>pre w post oid. candidates parseInt outputs = pre @ w # post \<and> snd w = m \<and>
            (\<forall>c \<in> set pre. snd c < m) \<and> decode (fst w) = Some oid \<and> sel = Some oid)
    else m = Finite 0 \<and> sel = None)"
  unfolding scan_def scanFrom_candidates by (rule updateAll_result)

lemma scan_abort:
  "(\<exists>e. scan parseInt decode outputs = Inl e) \<longleftrightarrow>
   (\<exists>pre c post. candidates parseInt outputs = pre @ c # post \<and> Finite 0 < snd c \<and>
      (\<forall>c' \<in> set pre. snd c' < snd c) \<and> decode (fst c) = None)"
  unfolding scan_def scanFrom_candidates by (rule updateAll_abort)

lemma scan_error: "scan parseInt decode outputs = Inl e \<Longrightarrow> e = DecoderFailure"
  unfolding scan_def scanFrom_candidates by (rule updateAll_error)

lemma candidate_malformed_expiry:
  assumes "tags out = Some ts"
    and "find (\<lambda>t. startsWith t ''object_identifier_'') ts = Some a"
    and "find (\<lambda>t. startsWith t ''expiry_time_'') ts = Some e"
    and "parseInt (substring e (length ''expiry_time_'')) = None"
  shows "candidate parseInt out = Some (substring a (length ''object_identifier_''), Finite 0)"
  using assms by (simp add: candidate_def orZero_def)

text \<open>
  C1 (as the code has it). Let the candidates be the outputs that carry both an
  \<^verbatim>\<open>object_identifier_\<close> tag and an \<^verbatim>\<open>expiry_time_\<close> tag, each with its parsed expiry: the
  double that \<^verbatim>\<open>parseInt\<close> returns (rounded where the numeral is beyond \<open>2^53\<close>), or 0
  where the expiry does not parse, which never ends the scan. The scan decodes the
  identifier of each candidate whose expiry is above 0 and above that of every candidate
  before it; it ends early exactly when the decoder raises on one of these, and then the
  resolver fails with the decoder's error. When the scan runs to its end: if some candidate
  has a parsed expiry greater than 0, it ends with the greatest parsed expiry of all
  candidates and with the decoded identifier of the first candidate, in store order, that
  has it (every candidate before the winner has a strictly smaller expiry); if no candidate
  has a parsed expiry greater than 0, it selects nothing and ends with expiry 0.
\<close>

theorem scan_selects_first_maximum:
  "((\<exists>e. scan parseInt decode outputs = Inl e) \<longleftrightarrow>
      (\<exists>pre c post. candidates parseInt outputs = pre @ c # post \<and> Finite 0 < snd c \<and>
         (\<forall>c' \<in> set pre. snd c' < snd c) \<and> decode (fst c) = None)) \<and>
   (\<forall>e. scan parseInt decode outputs = Inl e \<longrightarrow> e = DecoderFailure) \<and>
   (\<forall>m sel. scan parseInt decode outputs = Inr (m, sel) \<longrightarrow>
      (if \<exists>c \<in> set (candidates parseInt outputs). Finite 0 < snd c
       then (\<forall>c \<in> set (candidates parseInt outputs). snd c \<le> m) \<and>
            (\<exists>pre w post oid. candidates parseInt outputs = pre @ w # post \<and> snd w = m \<and>
               (\<forall>c \<in> set pre. snd c < m) \<and> decode (fst w) = Some oid \<and> sel = Some oid)
       else m = Finite 0 \<and> sel = None)) \<and>
   (\<forall>out \<in> set outputs. \<forall>ts a e.
      tags out = Some ts \<and>
      find (\<lambda>t. startsWith t ''object_identifier_'') ts = Some a \<and>
      find (\<lambda>t. startsWith t ''expiry_time_'') ts = Some e \<and>
      parseInt (substring e (length ''expiry_time_'')) = None \<longrightarrow>
      candidate parseInt out = Some (substring a (length ''object_identifier_''), Finite 0))"
proof (intro conjI allI impI)
  show "(\<exists>e. scan parseInt decode outputs = Inl e) \<longleftrightarrow>
      (\<exists>pre c post. candidates parseInt outputs = pre @ c # post \<and> Finite 0 < snd c \<and>
         (\<forall>c' \<in> set pre. snd c' < snd c) \<and> decode (fst c) = None)"
    by (rule scan_abort)
next
  fix e
  assume "scan parseInt decode outputs = Inl e"
  then show "e = DecoderFailure" by (rule scan_error)
next
  fix m sel
  assume run: "scan parseInt decode outputs = Inr (m, sel)"
  show "if \<exists>c \<in> set (candidates parseInt outputs). Finite 0 < snd c
       then (\<forall>c \<in> set (candidates parseInt outputs). snd c \<le> m) \<and>
            (\<exists>pre w post oid. candidates parseInt outputs = pre @ w # post \<and> snd w = m \<and>
               (\<forall>c \<in> set pre. snd c < m) \<and> decode (fst w) = Some oid \<and> sel = Some oid)
       else m = Finite 0 \<and> sel = None"
  proof (cases "\<exists>c \<in> set (candidates parseInt outputs). Finite 0 < snd c")
    case True
    show ?thesis
      unfolding if_P [OF True]
      using scan_first_maximum [OF run, unfolded if_P [OF True]] by (rule conjunct2)
  next
    case False
    show ?thesis
      unfolding if_not_P [OF False]
      using scan_first_maximum [OF run, unfolded if_not_P [OF False]] .
  qed
next
  show "\<forall>out \<in> set outputs. \<forall>ts a e.
      tags out = Some ts \<and>
      find (\<lambda>t. startsWith t ''object_identifier_'') ts = Some a \<and>
      find (\<lambda>t. startsWith t ''expiry_time_'') ts = Some e \<and>
      parseInt (substring e (length ''expiry_time_'')) = None \<longrightarrow>
      candidate parseInt out = Some (substring a (length ''object_identifier_''), Finite 0)"
    using candidate_malformed_expiry by blast
qed

theorem scan_selects_first_maximum_witness:
  "scan parseInt10 hexDecode exampleOutputs = Inr (Finite 2000, Some ''dd'') \<and>
   candidates parseInt10 exampleOutputs
     = [(''6161'', Finite 0), (''6262'', Finite 1000), (''6464'', Finite 2000),
        (''6565'', Finite 2000)] \<and>
   (\<exists>pre w post oid. candidates parseInt10 exampleOutputs = pre @ w # post \<and>
      snd w = Finite 2000 \<and> hexDecode (fst w) = Some oid \<and> Some ''dd'' = Some oid)"
proof -
  have run: "scan parseInt10 hexDecode exampleOutputs = Inr (Finite 2000, Some ''dd'')"
    by code_simp
  have cs: "candidates parseInt10 exampleOutputs
     = [(''6161'', Finite 0), (''6262'', Finite 1000), (''6464'', Finite 2000),
        (''6565'', Finite 2000)]"
    by code_simp
  have "Finite 0 < Finite 1000" by (simp add: less_number_def)
  then have pos: "\<exists>c \<in> set (candidates parseInt10 exampleOutputs). Finite 0 < snd c"
    unfolding cs by simp
  note part = scan_selects_first_maximum [of parseInt10 hexDecode exampleOutputs,
      THEN conjunct2, THEN conjunct2, THEN conjunct1, rule_format, OF run,
      unfolded if_P [OF pos], THEN conjunct2]
  then have "\<exists>pre w post oid. candidates parseInt10 exampleOutputs = pre @ w # post \<and>
      snd w = Finite 2000 \<and> hexDecode (fst w) = Some oid \<and> Some ''dd'' = Some oid"
    by blast
  then show ?thesis
    by (rule conjI [OF run conjI [OF cs]])
qed

text \<open>
  The claim as the specification words it fails where the greatest parsed expiry is 0: a
  lone candidate with both tags and an expiry that does not parse is the candidate of
  greatest expiry, yet the scan selects nothing.
\<close>

theorem scan_unparsed_expiry_counterexample:
  "candidates parseInt10 [adv ''6162'' ''abc''] = [(''6162'', Finite 0)] \<and>
   scan parseInt10 hexDecode [adv ''6162'' ''abc''] = Inr (Finite 0, None)"
  by code_simp

text \<open>
  Two more runs. Expiries 9007199254740992 and 9007199254740993 are the same double, so
  they tie and the first candidate stays. An identifier that is not hexadecimal ends the
  scan with the decoder's error, but only where the scan decodes it.
\<close>

lemma scan_rounded_tie:
  "scan parseInt10 hexDecode roundedOutputs = Inr (Finite 9007199254740992, Some ''aa'')"
  by code_simp

lemma scan_decoder_raises:
  "scan parseInt10 hexDecode [adv ''zz'' ''2000''] = Inl DecoderFailure"
  by code_simp

lemma scan_decoder_not_reached:
  "scan parseInt10 hexDecode [adv ''6161'' ''2000'', adv ''zz'' ''1000'']
     = Inr (Finite 2000, Some ''aa'')"
  by code_simp

lemma candidates_mem_split:
  "cs = pre @ w # post \<Longrightarrow> w \<in> set cs"
  by simp

text \<open>What a successful resolution returns, field by field.\<close>

lemma getMetadata_success_record:
  assumes "listOutputs (listOutputsQuery toHexUtf8 uhrpUrl key lim off) = Inr outputs"
    and "getMetadata toHexUtf8 parseInt decode listOutputs now storage uhrpUrl key lim off = Inr r"
  shows "\<exists>m oid md. scan parseInt decode outputs = Inr (m, Some oid) \<and> oid \<noteq> [] \<and>
           storage (''cdn/'' @ oid) = Inr md \<and>
           objectIdentifier r = oid \<and> name r = ''cdn/'' @ oid \<and>
           sizeText r = numberToString (sizeBytes md) \<and>
           fmContentType r = contentType md \<and>
           expiryTime r = m \<and>
           \<not> clockPast now (expiryTime r)"
proof -
  from assms(2) obtain m sel where sc: "scan parseInt decode outputs = Inr (m, sel)"
    by (cases "scan parseInt decode outputs") (auto simp add: getMetadata_def assms(1))
  have run: "getMetadata toHexUtf8 parseInt decode listOutputs now storage uhrpUrl key lim off =
      (case sel of
         None \<Rightarrow> Inl NoAdvertisementFound
       | Some oid \<Rightarrow>
           if oid = [] then Inl NoAdvertisementFound
           else if clockPast now m then Inl AdvertisementExpired
           else (case storage (''cdn/'' @ oid) of
                   Inl e \<Rightarrow> Inl (StorageFailure e)
                 | Inr metadata \<Rightarrow>
                     Inr \<lparr> objectIdentifier = oid, name = ''cdn/'' @ oid,
                           sizeText = numberToString (sizeBytes metadata),
                           fmContentType = contentType metadata, expiryTime = m \<rparr>))"
    by (simp add: getMetadata_def assms(1) sc Let_def split: option.splits sum.splits)
  from assms(2) obtain oid where oid: "sel = Some oid" "oid \<noteq> []"
    unfolding run by (cases sel) (simp_all split: if_splits)
  from assms(2) have fresh: "\<not> clockPast now m"
    unfolding run by (simp add: oid split: if_splits)
  from assms(2) obtain md where md: "storage (''cdn/'' @ oid) = Inr md"
    unfolding run using fresh by (cases "storage (''cdn/'' @ oid)") (simp_all add: oid)
  from assms(2) have "r = \<lparr> objectIdentifier = oid, name = ''cdn/'' @ oid,
        sizeText = numberToString (sizeBytes md), fmContentType = contentType md,
        expiryTime = m \<rparr>"
    unfolding run using fresh md by (simp add: oid)
  then show ?thesis using sc oid md fresh by simp
qed

text \<open>
  C2. The resolver compares \<^verbatim>\<open>maxpiry * 1000\<close> with the clock in milliseconds, so
  \<^verbatim>\<open>maxpiry\<close> is in seconds, and it returns that number unchanged as \<^verbatim>\<open>expiryTime\<close>, a
  field documented as minutes since the epoch. For an advertisement expiring at second
  2000000000, resolved at millisecond 1700000000000 for an object of 1024 bytes, the record
  holds the identifier, the key \<^verbatim>\<open>cdn/ab\<close>, the size and the content type, and the expiry
  2000000000, which is the value in seconds and not 33333333, the value in minutes.
\<close>

theorem getMetadata_expiryTime_in_seconds:
  "getMetadata textToHex parseInt10 hexDecode (\<lambda>q. Inr [adv ''6162'' ''2000000000''])
     1700000000000
     (\<lambda>k. Inr \<lparr> sizeBytes = 1024, contentType = ''text/plain'' \<rparr>) ''XUT'' ''02ab'' None None
   = Inr \<lparr> objectIdentifier = ''ab'', name = ''cdn/ab'', sizeText = ''1024'',
           fmContentType = ''text/plain'', expiryTime = Finite 2000000000 \<rparr>"
  by code_simp

text \<open>
  C3 (as the code has it). When the wallet query succeeds and no candidate decodes to the
  empty identifier, the resolver fails with \<^verbatim>\<open>No advertisement found\<close> exactly when no
  candidate carrying both tags has a parsed expiry greater than 0. So it fails that way
  when no candidate has both tags, and never when some candidate with both tags has a
  positive parsed expiry. This holds whatever the decoder does, raising included.
\<close>

theorem getMetadata_NoAdvertisementFound_iff:
  assumes "listOutputs (listOutputsQuery toHexUtf8 uhrpUrl key lim off) = Inr outputs"
    and "\<forall>c \<in> set (candidates parseInt outputs). decode (fst c) \<noteq> Some []"
  shows "getMetadata toHexUtf8 parseInt decode listOutputs now storage uhrpUrl key lim off
           = Inl NoAdvertisementFound
         \<longleftrightarrow> \<not> (\<exists>c \<in> set (candidates parseInt outputs). Finite 0 < snd c)"
proof (cases "scan parseInt decode outputs")
  case (Inl e)
  then have e: "e = DecoderFailure" by (rule scan_error)
  from Inl have "\<exists>e. scan parseInt decode outputs = Inl e" by blast
  then obtain pre c post where
    c: "candidates parseInt outputs = pre @ c # post" "Finite 0 < snd c"
    unfolding scan_abort by blast
  have "c \<in> set (candidates parseInt outputs)" using c(1) by (rule candidates_mem_split)
  then have pos: "\<exists>c \<in> set (candidates parseInt outputs). Finite 0 < snd c"
    using c(2) by blast
  have "getMetadata toHexUtf8 parseInt decode listOutputs now storage uhrpUrl key lim off
          = Inl DecoderFailure"
    by (simp add: getMetadata_def assms(1) Inl e)
  then show ?thesis using pos by simp
next
  case (Inr acc)
  obtain m sel where acc: "acc = (m, sel)" by (cases acc)
  note sc = Inr [unfolded acc]
  show ?thesis
  proof (cases "\<exists>c \<in> set (candidates parseInt outputs). Finite 0 < snd c")
    case True
    from scan_first_maximum [OF sc, unfolded if_P [OF True]] obtain pre w post oid where
      w: "candidates parseInt outputs = pre @ w # post" "decode (fst w) = Some oid"
         "sel = Some oid"
      by blast
    have "w \<in> set (candidates parseInt outputs)" using w(1) by (rule candidates_mem_split)
    then have ne: "oid \<noteq> []" using assms(2) w(2) by auto
    have "getMetadata toHexUtf8 parseInt decode listOutputs now storage uhrpUrl key lim off
            \<noteq> Inl NoAdvertisementFound"
      using ne by (simp add: getMetadata_def assms(1) sc w(3) Let_def split: sum.splits)
    then show ?thesis using True by simp
  next
    case False
    from scan_first_maximum [OF sc, unfolded if_not_P [OF False]] have "sel = None"
      by blast
    then have "getMetadata toHexUtf8 parseInt decode listOutputs now storage uhrpUrl key lim off
            = Inl NoAdvertisementFound"
      by (simp add: getMetadata_def assms(1) sc)
    then show ?thesis using False by simp
  qed
qed

theorem getMetadata_NoAdvertisementFound_iff_witness:
  "candidates parseInt10 exampleOutputs
     = [(''6161'', Finite 0), (''6262'', Finite 1000), (''6464'', Finite 2000),
        (''6565'', Finite 2000)] \<and>
   getMetadata textToHex parseInt10 hexDecode (\<lambda>q. Inr exampleOutputs) 1500000
      (\<lambda>k. Inr \<lparr> sizeBytes = 7, contentType = ''image/png'' \<rparr>) ''XUT'' ''02ab'' None None
      \<noteq> Inl NoAdvertisementFound"
proof -
  have cs: "candidates parseInt10 exampleOutputs
     = [(''6161'', Finite 0), (''6262'', Finite 1000), (''6464'', Finite 2000),
        (''6565'', Finite 2000)]"
    by code_simp
  have d: "hexDecode ''6161'' = Some ''aa''" "hexDecode ''6262'' = Some ''bb''"
    "hexDecode ''6464'' = Some ''dd''" "hexDecode ''6565'' = Some ''ee''"
    by code_simp+
  have ne: "\<forall>c \<in> set (candidates parseInt10 exampleOutputs). hexDecode (fst c) \<noteq> Some []"
    unfolding cs using d by simp
  have "Finite 0 < Finite 1000" by (simp add: less_number_def)
  then have pos: "\<exists>c \<in> set (candidates parseInt10 exampleOutputs). Finite 0 < snd c"
    unfolding cs by simp
  have q: "(\<lambda>q. Inr exampleOutputs) (listOutputsQuery textToHex ''XUT'' ''02ab'' None None)
             = (Inr exampleOutputs :: string + walletOutput list)"
    by simp
  have "getMetadata textToHex parseInt10 hexDecode (\<lambda>q. Inr exampleOutputs) 1500000
      (\<lambda>k. Inr \<lparr> sizeBytes = 7, contentType = ''image/png'' \<rparr>) ''XUT'' ''02ab'' None None
      \<noteq> Inl NoAdvertisementFound"
    using getMetadata_NoAdvertisementFound_iff [OF q ne] pos by blast
  then show ?thesis
    by (rule conjI [OF cs])
qed

text \<open>
  The claim as the specification words it fails for a candidate that carries both tags
  with expiry 0: the failure is \<^verbatim>\<open>No advertisement found\<close>, not an expiry failure.
\<close>

theorem getMetadata_zero_expiry_counterexample:
  "candidates parseInt10 [adv ''6162'' ''0''] = [(''6162'', Finite 0)] \<and>
   getMetadata textToHex parseInt10 hexDecode (\<lambda>q. Inr [adv ''6162'' ''0'']) 1700000000000
     (\<lambda>k. Inr \<lparr> sizeBytes = 1024, contentType = ''text/plain'' \<rparr>) ''XUT'' ''02ab'' None None
   = Inl NoAdvertisementFound"
  by code_simp


section \<open>Properties of the storage providers\<close>

text \<open>
  C5. Whenever either provider issues an upload grant, the custom-time value it binds is
  the ISO-8601 text of the requested expiry time plus 300 seconds (taken in milliseconds):
  the GCS provider signs it as the header \<^verbatim>\<open>x-goog-custom-time\<close> and returns it among the
  required headers, the S3 provider passes it to the presigned POST as the form field
  \<^verbatim>\<open>x-amz-meta-customtime\<close>; it is the same value for both.
\<close>

theorem generateUploadURL_customTime:
  "(GCS_generateUploadURL toISOString now getSignedUrl p = Inr g \<longrightarrow>
      (\<exists>customTime.
         toISOString ((expiryTime_p p + 300) * 1000) = Some customTime \<and>
         getSignedUrl (''cdn/'' @ objectIdentifier_p p) (gcsSignedUrlOptions now p customTime)
           = Inr (uploadURL g) \<and>
         map_of (extensionHeaders (gcsSignedUrlOptions now p customTime)) ''x-goog-custom-time''
           = Some customTime \<and>
         map_of (requiredHeaders g) ''x-goog-custom-time'' = Some customTime)) \<and>
   (S3_generateUploadURL toISOString createPresignedPost bucketName p = Inr s \<longrightarrow>
      (\<exists>customTime postFields.
         toISOString ((expiryTime_p p + 300) * 1000) = Some customTime \<and>
         createPresignedPost (s3PresignedPostOptions bucketName p customTime)
           = Inr (uploadURL s, postFields) \<and>
         formFields s = Some postFields \<and>
         map_of (Fields (s3PresignedPostOptions bucketName p customTime)) ''x-amz-meta-customtime''
           = Some customTime))"
proof (intro conjI impI)
  assume a: "GCS_generateUploadURL toISOString now getSignedUrl p = Inr g"
  then obtain ct where ct: "toISOString ((expiryTime_p p + 300) * 1000) = Some ct"
    by (cases "toISOString ((expiryTime_p p + 300) * 1000)")
       (simp_all add: GCS_generateUploadURL_def customTimeOf_def)
  from a obtain url where
    url: "getSignedUrl (''cdn/'' @ objectIdentifier_p p) (gcsSignedUrlOptions now p ct) = Inr url"
    using ct
    by (cases "getSignedUrl (''cdn/'' @ objectIdentifier_p p) (gcsSignedUrlOptions now p ct)")
       (simp_all add: GCS_generateUploadURL_def customTimeOf_def)
  from a have g: "g = \<lparr> uploadURL = url, requiredHeaders = gcsExtensionHeaders p ct,
                         formFields = None \<rparr>"
    using ct url by (simp add: GCS_generateUploadURL_def customTimeOf_def)
  have "map_of (gcsExtensionHeaders p ct) ''x-goog-custom-time'' = Some ct"
    by (simp add: gcsExtensionHeaders_def)
  then show "\<exists>customTime.
         toISOString ((expiryTime_p p + 300) * 1000) = Some customTime \<and>
         getSignedUrl (''cdn/'' @ objectIdentifier_p p) (gcsSignedUrlOptions now p customTime)
           = Inr (uploadURL g) \<and>
         map_of (extensionHeaders (gcsSignedUrlOptions now p customTime)) ''x-goog-custom-time''
           = Some customTime \<and>
         map_of (requiredHeaders g) ''x-goog-custom-time'' = Some customTime"
    using ct url g by (simp add: gcsSignedUrlOptions_def)
next
  assume a: "S3_generateUploadURL toISOString createPresignedPost bucketName p = Inr s"
  then obtain ct where ct: "toISOString ((expiryTime_p p + 300) * 1000) = Some ct"
    by (cases "toISOString ((expiryTime_p p + 300) * 1000)")
       (simp_all add: S3_generateUploadURL_def customTimeOf_def)
  from a obtain url pf where
    post: "createPresignedPost (s3PresignedPostOptions bucketName p ct) = Inr (url, pf)"
    using ct
    by (cases "createPresignedPost (s3PresignedPostOptions bucketName p ct)")
       (auto simp add: S3_generateUploadURL_def customTimeOf_def)
  from a have s: "s = \<lparr> uploadURL = url,
        requiredHeaders = [(''content-type'', ''multipart/form-data'')],
        formFields = Some pf \<rparr>"
    using ct post by (simp add: S3_generateUploadURL_def customTimeOf_def)
  have "map_of (Fields (s3PresignedPostOptions bucketName p ct)) ''x-amz-meta-customtime'' = Some ct"
    by (simp add: s3PresignedPostOptions_def)
  then show "\<exists>customTime postFields.
         toISOString ((expiryTime_p p + 300) * 1000) = Some customTime \<and>
         createPresignedPost (s3PresignedPostOptions bucketName p customTime)
           = Inr (uploadURL s, postFields) \<and>
         formFields s = Some postFields \<and>
         map_of (Fields (s3PresignedPostOptions bucketName p customTime)) ''x-amz-meta-customtime''
           = Some customTime"
    using ct post s by simp
qed

theorem generateUploadURL_customTime_witness:
  "exampleClock ((expiryTime_p exampleParams + 300) * 1000) = Some ''1970-01-01T01:05:00.000Z'' \<and>
   GCS_generateUploadURL exampleClock 0 exampleSignedUrl exampleParams = Inr exampleGcsGrant \<and>
   S3_generateUploadURL exampleClock examplePresignedPost ''bucket'' exampleParams
     = Inr exampleS3Grant \<and>
   map_of (requiredHeaders exampleGcsGrant) ''x-goog-custom-time''
     = Some ''1970-01-01T01:05:00.000Z'' \<and>
   map_of (extensionHeaders (gcsSignedUrlOptions 0 exampleParams ''1970-01-01T01:05:00.000Z''))
      ''x-goog-custom-time'' = Some ''1970-01-01T01:05:00.000Z'' \<and>
   map_of (Fields (s3PresignedPostOptions ''bucket'' exampleParams ''1970-01-01T01:05:00.000Z''))
      ''x-amz-meta-customtime'' = Some ''1970-01-01T01:05:00.000Z'' \<and>
   map_of (the (formFields exampleS3Grant)) ''x-amz-meta-customtime''
     = Some ''1970-01-01T01:05:00.000Z''"
proof -
  have clock: "exampleClock ((expiryTime_p exampleParams + 300) * 1000) = Some ''1970-01-01T01:05:00.000Z''"
    by (simp add: exampleClock_def exampleParams_def)
  have gcs: "GCS_generateUploadURL exampleClock 0 exampleSignedUrl exampleParams = Inr exampleGcsGrant"
    by code_simp
  have s3: "S3_generateUploadURL exampleClock examplePresignedPost ''bucket'' exampleParams
      = Inr exampleS3Grant"
    by code_simp
  have form: "map_of (the (formFields exampleS3Grant)) ''x-amz-meta-customtime''
     = Some ''1970-01-01T01:05:00.000Z''"
    by code_simp
  note inst = generateUploadURL_customTime
    [of exampleClock 0 exampleSignedUrl exampleParams exampleGcsGrant examplePresignedPost
        "''bucket''" exampleS3Grant]
  from inst [THEN conjunct1, rule_format, OF gcs] inst [THEN conjunct2, rule_format, OF s3]
  have "map_of (requiredHeaders exampleGcsGrant) ''x-goog-custom-time''
     = Some ''1970-01-01T01:05:00.000Z'' \<and>
   map_of (extensionHeaders (gcsSignedUrlOptions 0 exampleParams ''1970-01-01T01:05:00.000Z''))
      ''x-goog-custom-time'' = Some ''1970-01-01T01:05:00.000Z'' \<and>
   map_of (Fields (s3PresignedPostOptions ''bucket'' exampleParams ''1970-01-01T01:05:00.000Z''))
      ''x-amz-meta-customtime'' = Some ''1970-01-01T01:05:00.000Z''"
    unfolding clock by (elim exE conjE) simp
  then show ?thesis using clock gcs s3 form by simp
qed

text \<open>
  C6. The two providers do not give the same window. The S3 presigned POST expires after
  604800 seconds, one week. The GCS signed URL expires 604000 seconds after issuance,
  800 seconds short of the week its comment announces.
\<close>

theorem generateUploadURL_validity_window:
  "expires (gcsSignedUrlOptions now p customTime) - now = 604000 * 1000 \<and>
   expires (gcsSignedUrlOptions now p customTime) \<noteq> now + 604800 * 1000 \<and>
   Expires (s3PresignedPostOptions bucketName p customTime) = 604800"
  by (simp add: gcsSignedUrlOptions_def s3PresignedPostOptions_def)

text \<open>The loop of lines 191 to 195, from any starting metadata.\<close>

lemma patch_loop_frame:
  "k' \<notin> toLowerCase ` (fst ` set patch - {''customTime''}) \<Longrightarrow>
   foldl patchStep m0 patch k' = m0 k'"
proof (induction patch arbitrary: m0)
  case Nil
  then show ?case by simp
next
  case (Cons e patch)
  have rest: "k' \<notin> toLowerCase ` (fst ` set patch - {''customTime''})"
    using Cons.prems by auto
  have "patchStep m0 e k' = m0 k'"
  proof (cases "fst e = ''customTime''")
    case True
    then show ?thesis by (simp add: patchStep_def)
  next
    case False
    then have "k' \<noteq> toLowerCase (fst e)" using Cons.prems by auto
    then show ?thesis by (simp add: patchStep_def assign_def)
  qed
  then show ?case using Cons.IH [OF rest, of "patchStep m0 e"] by simp
qed

lemma assign_same:
  "assign obj k v k = (if k = ''__proto__'' \<and> obj ''__proto__'' = None then None else Some v)"
  by (cases "k = ''__proto__''") (auto simp add: assign_def)

lemma patch_loop_written:
  assumes "(k, v) \<in> set patch" and "k \<noteq> ''customTime''" and "distinct (map fst patch)"
    and "\<forall>k2 \<in> fst ` set patch. k2 \<noteq> k \<and> k2 \<noteq> ''customTime'' \<longrightarrow> toLowerCase k2 \<noteq> toLowerCase k"
  shows "foldl patchStep m0 patch (toLowerCase k) =
           (if toLowerCase k = ''__proto__'' \<and> m0 ''__proto__'' = None then None else Some v)"
  using assms
proof (induction patch arbitrary: m0)
  case Nil
  then show ?case by simp
next
  case (Cons e patch)
  show ?case
  proof (cases "fst e = k")
    case True
    have notin: "k \<notin> fst ` set patch" using Cons.prems(3) True by simp
    have v1: "snd e = v"
    proof (cases "e = (k, v)")
      case True
      then show ?thesis by simp
    next
      case False
      then have "(k, v) \<in> set patch" using Cons.prems(1) by simp
      then have "k \<in> fst ` set patch" by (metis fst_conv image_eqI)
      then show ?thesis using notin by simp
    qed
    have "toLowerCase k \<notin> toLowerCase ` (fst ` set patch - {''customTime''})"
    proof
      assume "toLowerCase k \<in> toLowerCase ` (fst ` set patch - {''customTime''})"
      then obtain k2 where k2: "k2 \<in> fst ` set patch" "k2 \<noteq> ''customTime''"
          "toLowerCase k = toLowerCase k2"
        by auto
      have "k2 \<noteq> k" using k2(1) notin by auto
      moreover have "k2 \<in> fst ` set (e # patch)" using k2(1) by simp
      ultimately have "toLowerCase k2 \<noteq> toLowerCase k" using Cons.prems(4) k2(2) by blast
      then show False using k2(3) by simp
    qed
    from patch_loop_frame [OF this, of "patchStep m0 e"]
    have "foldl patchStep (patchStep m0 e) patch (toLowerCase k) = patchStep m0 e (toLowerCase k)" .
    moreover have "patchStep m0 e (toLowerCase k) = assign m0 (toLowerCase k) v (toLowerCase k)"
      using True v1 Cons.prems(2) by (simp add: patchStep_def)
    ultimately show ?thesis by (simp add: assign_same)
  next
    case False
    then have mem: "(k, v) \<in> set patch" using Cons.prems(1) by auto
    have d: "distinct (map fst patch)" using Cons.prems(3) by simp
    have o: "\<forall>k2 \<in> fst ` set patch. k2 \<noteq> k \<and> k2 \<noteq> ''customTime'' \<longrightarrow> toLowerCase k2 \<noteq> toLowerCase k"
      using Cons.prems(4) by simp
    note ih = Cons.IH [OF mem Cons.prems(2) d o, of "patchStep m0 e"]
    have same: "patchStep m0 e (toLowerCase k) = m0 (toLowerCase k)"
    proof (cases "fst e = ''customTime''")
      case True
      then show ?thesis by (simp add: patchStep_def)
    next
      case F2: False
      have "toLowerCase (fst e) \<noteq> toLowerCase k" using Cons.prems(4) False F2 by simp
      then show ?thesis by (simp add: patchStep_def assign_def)
    qed
    show ?thesis
    proof (cases "toLowerCase k = ''__proto__''")
      case True
      have "patchStep m0 e ''__proto__'' = m0 ''__proto__''" using same True by simp
      then show ?thesis using ih by simp
    next
      case F3: False
      then show ?thesis using ih by simp
    qed
  qed
qed

lemma patchStep_dom: "dom (patchStep m e) \<subseteq> dom m \<union> {toLowerCase (fst e)}"
  by (auto simp add: patchStep_def assign_def)

lemma patch_loop_dom:
  "dom (foldl patchStep m0 patch) \<subseteq> dom m0 \<union> toLowerCase ` fst ` set patch"
proof (induction patch arbitrary: m0)
  case Nil
  then show ?case by simp
next
  case (Cons e patch)
  have "dom (foldl patchStep (patchStep m0 e) patch)
          \<subseteq> dom (patchStep m0 e) \<union> toLowerCase ` fst ` set patch"
    by (rule Cons.IH)
  also have "\<dots> \<subseteq> (dom m0 \<union> {toLowerCase (fst e)}) \<union> toLowerCase ` fst ` set patch"
    using patchStep_dom [of m0 e] by blast
  finally show ?case by auto
qed

lemma toLowerCase_customTime: "toLowerCase ''customTime'' = ''customtime''"
  by code_simp

lemma truthy_customTime_key:
  assumes "truthy (map_of patch ''customTime'')"
  shows "''customtime'' \<in> toLowerCase ` fst ` set patch"
proof -
  from assms obtain v where "map_of patch ''customTime'' = Some v"
    by (cases "map_of patch ''customTime''") (simp_all add: truthy_def)
  then have "(''customTime'', v) \<in> set patch" by (rule map_of_SomeD)
  then have "''customTime'' \<in> fst ` set patch" by (metis fst_conv image_eqI)
  then have "toLowerCase ''customTime'' \<in> toLowerCase ` fst ` set patch" by (rule imageI)
  then show ?thesis by (simp only: toLowerCase_customTime)
qed

lemma s3NewMetadata_frame:
  assumes "k' \<notin> toLowerCase ` fst ` set patch"
  shows "s3NewMetadata patch current k' = metadataOrEmpty current k'"
proof -
  have a: "k' \<notin> toLowerCase ` (fst ` set patch - {''customTime''})" using assms by auto
  have "truthy (map_of patch ''customTime'') \<Longrightarrow> k' \<noteq> ''customtime''"
    using truthy_customTime_key assms by blast
  then show ?thesis
    unfolding s3NewMetadata_def Let_def patch_loop_frame [OF a] by auto
qed

lemma s3NewMetadata_written:
  assumes "(k, v) \<in> set patch" and "k \<noteq> ''customTime''" and "distinct (map fst patch)"
    and "\<forall>k2 \<in> fst ` set patch. k2 \<noteq> k \<and> k2 \<noteq> ''customTime'' \<longrightarrow> toLowerCase k2 \<noteq> toLowerCase k"
  shows "s3NewMetadata patch current (toLowerCase k) =
           (if toLowerCase k = ''__proto__'' \<and> metadataOrEmpty current ''__proto__'' = None
            then None else Some v)"
proof (cases "truthy (map_of patch ''customTime'')")
  case True
  have "s3NewMetadata patch current (toLowerCase k) =
      foldl patchStep ((metadataOrEmpty current)(''customtime'' \<mapsto> the (map_of patch ''customTime'')))
        patch (toLowerCase k)"
    unfolding s3NewMetadata_def Let_def if_P [OF True] ..
  also have "\<dots> = (if toLowerCase k = ''__proto__'' \<and>
        ((metadataOrEmpty current)(''customtime'' \<mapsto> the (map_of patch ''customTime''))) ''__proto__'' = None
      then None else Some v)"
    by (rule patch_loop_written [OF assms])
  finally show ?thesis by simp
next
  case False
  show ?thesis
    unfolding s3NewMetadata_def Let_def if_not_P [OF False] by (rule patch_loop_written [OF assms])
qed

lemma s3NewMetadata_customTime:
  assumes "(''customTime'', v) \<in> set patch" and "distinct (map fst patch)"
    and "\<forall>k2 \<in> fst ` set patch. k2 \<noteq> ''customTime'' \<longrightarrow> toLowerCase k2 \<noteq> ''customtime''"
  shows "s3NewMetadata patch current ''customtime'' =
           (if v \<noteq> [] then Some v else metadataOrEmpty current ''customtime'')"
proof -
  have a: "''customtime'' \<notin> toLowerCase ` (fst ` set patch - {''customTime''})"
    using assms(3) by auto
  have m: "map_of patch ''customTime'' = Some v"
    using assms(1,2) by simp
  show ?thesis
    unfolding s3NewMetadata_def Let_def patch_loop_frame [OF a] m
    by (simp add: truthy_def)
qed

lemma s3NewMetadata_dom:
  "dom (s3NewMetadata patch current)
     \<subseteq> dom (metadataOrEmpty current) \<union> toLowerCase ` fst ` set patch"
proof (cases "truthy (map_of patch ''customTime'')")
  case True
  have "dom (s3NewMetadata patch current)
      \<subseteq> dom ((metadataOrEmpty current)(''customtime'' \<mapsto> the (map_of patch ''customTime'')))
          \<union> toLowerCase ` fst ` set patch"
    unfolding s3NewMetadata_def Let_def if_P [OF True] by (rule patch_loop_dom)
  then show ?thesis using truthy_customTime_key [OF True] by auto
next
  case False
  show ?thesis
    unfolding s3NewMetadata_def Let_def if_not_P [OF False] by (rule patch_loop_dom)
qed

text \<open>
  C7 (as the code has it). A successful copy-based update read the current object and
  sent one copy of the object onto itself, with the \<^verbatim>\<open>REPLACE\<close> directive, the content
  type just read, and metadata in which: every stored key that is not the lower-cased
  form of a patch key keeps its value; every patch entry other than \<^verbatim>\<open>customTime\<close> is
  written under its lower-cased key (when no other such patch key lower-cases to the same
  text), except that an entry whose lower-cased key is \<^verbatim>\<open>__proto__\<close> writes nothing when
  the stored metadata has no key of that name; a \<^verbatim>\<open>customTime\<close> entry is written under \<^verbatim>\<open>customtime\<close> when its value is not
  empty, and is ignored, the stored value staying, when it is empty; and no key is written
  other than stored keys and lower-cased patch keys. The patch lists each key once.
\<close>

theorem S3_updateObjectMetadata_merge:
  assumes "S3_updateObjectMetadata headObject copyObject bucketName objectKey patch = Inr ()"
    and "distinct (map fst patch)"
  shows "\<exists>currentObject.
           headObject bucketName objectKey = Inr currentObject \<and>
           copyObject (s3CopyCommand bucketName objectKey currentObject patch) = Inr () \<and>
           CopySource (s3CopyCommand bucketName objectKey currentObject patch)
             = bucketName @ ''/'' @ objectKey \<and>
           MetadataDirective (s3CopyCommand bucketName objectKey currentObject patch) = ''REPLACE'' \<and>
           ContentType_c (s3CopyCommand bucketName objectKey currentObject patch)
             = ContentType currentObject \<and>
           (\<forall>k. k \<notin> toLowerCase ` fst ` set patch \<longrightarrow>
              Metadata_c (s3CopyCommand bucketName objectKey currentObject patch) k
                = metadataOrEmpty (Metadata currentObject) k) \<and>
           (\<forall>k v. (k, v) \<in> set patch \<and> k \<noteq> ''customTime'' \<and>
              (\<forall>k2 \<in> fst ` set patch. k2 \<noteq> k \<and> k2 \<noteq> ''customTime'' \<longrightarrow>
                 toLowerCase k2 \<noteq> toLowerCase k) \<longrightarrow>
              Metadata_c (s3CopyCommand bucketName objectKey currentObject patch) (toLowerCase k)
                = (if toLowerCase k = ''__proto__'' \<and>
                      metadataOrEmpty (Metadata currentObject) ''__proto__'' = None
                   then None else Some v)) \<and>
           (\<forall>v. (''customTime'', v) \<in> set patch \<and>
              (\<forall>k2 \<in> fst ` set patch. k2 \<noteq> ''customTime'' \<longrightarrow> toLowerCase k2 \<noteq> ''customtime'') \<longrightarrow>
              Metadata_c (s3CopyCommand bucketName objectKey currentObject patch) ''customtime''
                = (if v \<noteq> [] then Some v
                   else metadataOrEmpty (Metadata currentObject) ''customtime'')) \<and>
           dom (Metadata_c (s3CopyCommand bucketName objectKey currentObject patch))
             \<subseteq> dom (metadataOrEmpty (Metadata currentObject)) \<union> toLowerCase ` fst ` set patch"
proof -
  from assms(1) obtain cur where cur: "headObject bucketName objectKey = Inr cur"
    by (cases "headObject bucketName objectKey") (simp_all add: S3_updateObjectMetadata_def)
  from assms(1) have copy: "copyObject (s3CopyCommand bucketName objectKey cur patch) = Inr ()"
    using cur
    by (cases "copyObject (s3CopyCommand bucketName objectKey cur patch)")
       (simp_all add: S3_updateObjectMetadata_def)
  have md: "Metadata_c (s3CopyCommand bucketName objectKey cur patch)
              = s3NewMetadata patch (Metadata cur)"
    by (simp add: s3CopyCommand_def)
  have "CopySource (s3CopyCommand bucketName objectKey cur patch) = bucketName @ ''/'' @ objectKey"
    by (simp add: s3CopyCommand_def)
  moreover have "MetadataDirective (s3CopyCommand bucketName objectKey cur patch) = ''REPLACE''"
    by (simp add: s3CopyCommand_def)
  moreover have "ContentType_c (s3CopyCommand bucketName objectKey cur patch) = ContentType cur"
    by (simp add: s3CopyCommand_def)
  moreover have "\<forall>k. k \<notin> toLowerCase ` fst ` set patch \<longrightarrow>
      Metadata_c (s3CopyCommand bucketName objectKey cur patch) k = metadataOrEmpty (Metadata cur) k"
    unfolding md using s3NewMetadata_frame by blast
  moreover have "\<forall>k v. (k, v) \<in> set patch \<and> k \<noteq> ''customTime'' \<and>
      (\<forall>k2 \<in> fst ` set patch. k2 \<noteq> k \<and> k2 \<noteq> ''customTime'' \<longrightarrow> toLowerCase k2 \<noteq> toLowerCase k) \<longrightarrow>
      Metadata_c (s3CopyCommand bucketName objectKey cur patch) (toLowerCase k)
        = (if toLowerCase k = ''__proto__'' \<and> metadataOrEmpty (Metadata cur) ''__proto__'' = None
           then None else Some v)"
    unfolding md using s3NewMetadata_written [OF _ _ assms(2)] by blast
  moreover have "\<forall>v. (''customTime'', v) \<in> set patch \<and>
      (\<forall>k2 \<in> fst ` set patch. k2 \<noteq> ''customTime'' \<longrightarrow> toLowerCase k2 \<noteq> ''customtime'') \<longrightarrow>
      Metadata_c (s3CopyCommand bucketName objectKey cur patch) ''customtime''
        = (if v \<noteq> [] then Some v else metadataOrEmpty (Metadata cur) ''customtime'')"
    unfolding md using s3NewMetadata_customTime [OF _ assms(2)] by blast
  moreover have "dom (Metadata_c (s3CopyCommand bucketName objectKey cur patch))
      \<subseteq> dom (metadataOrEmpty (Metadata cur)) \<union> toLowerCase ` fst ` set patch"
    unfolding md by (rule s3NewMetadata_dom)
  ultimately show ?thesis using cur copy by blast
qed

theorem S3_updateObjectMetadata_merge_witness:
  "ContentType_c (s3CopyCommand ''bucket'' ''cdn/abc'' exampleHead examplePatch) = Some ''text/plain'' \<and>
   Metadata_c (s3CopyCommand ''bucket'' ''cdn/abc'' exampleHead examplePatch) ''uploaderidentitykey''
     = Some ''02ab'' \<and>
   Metadata_c (s3CopyCommand ''bucket'' ''cdn/abc'' exampleHead examplePatch) ''owner'' = Some ''me'' \<and>
   Metadata_c (s3CopyCommand ''bucket'' ''cdn/abc'' exampleHead examplePatch) ''customtime''
     = Some ''2031-01-01T00:00:00.000Z''"
proof -
  have run: "S3_updateObjectMetadata (\<lambda>b k. Inr exampleHead) (\<lambda>c. Inr ()) ''bucket'' ''cdn/abc'' examplePatch
               = Inr ()"
    by (simp add: S3_updateObjectMetadata_def)
  have d: "distinct (map fst examplePatch)"
    by (simp add: examplePatch_def)
  have lower: "toLowerCase ''Owner'' = ''owner''" "toLowerCase ''customTime'' = ''customtime''"
    by code_simp+
  have keys: "toLowerCase ` fst ` set examplePatch = {''customtime'', ''owner''}"
    by (simp add: examplePatch_def lower)
  have k1: "''uploaderidentitykey'' \<notin> toLowerCase ` fst ` set examplePatch"
    unfolding keys by simp
  have k2: "(''Owner'', ''me'') \<in> set examplePatch \<and> ''Owner'' \<noteq> ''customTime'' \<and>
      (\<forall>k2 \<in> fst ` set examplePatch. k2 \<noteq> ''Owner'' \<and> k2 \<noteq> ''customTime'' \<longrightarrow>
         toLowerCase k2 \<noteq> toLowerCase ''Owner'')"
    by (simp add: examplePatch_def)
  have k3: "(''customTime'', ''2031-01-01T00:00:00.000Z'') \<in> set examplePatch \<and>
      (\<forall>k2 \<in> fst ` set examplePatch. k2 \<noteq> ''customTime'' \<longrightarrow> toLowerCase k2 \<noteq> ''customtime'')"
    by (simp add: examplePatch_def lower)
  have old: "metadataOrEmpty (Metadata exampleHead) ''uploaderidentitykey'' = Some ''02ab''"
    "ContentType exampleHead = Some ''text/plain''"
    by (simp_all add: metadataOrEmpty_def exampleHead_def)
  from S3_updateObjectMetadata_merge [OF run d] obtain cur where
    c: "Inr exampleHead = (Inr cur :: string + headObjectOutput)"
    and ct: "ContentType_c (s3CopyCommand ''bucket'' ''cdn/abc'' cur examplePatch) = ContentType cur"
    and fr: "\<forall>k. k \<notin> toLowerCase ` fst ` set examplePatch \<longrightarrow>
              Metadata_c (s3CopyCommand ''bucket'' ''cdn/abc'' cur examplePatch) k
                = metadataOrEmpty (Metadata cur) k"
    and wr: "\<forall>k v. (k, v) \<in> set examplePatch \<and> k \<noteq> ''customTime'' \<and>
              (\<forall>k2 \<in> fst ` set examplePatch. k2 \<noteq> k \<and> k2 \<noteq> ''customTime'' \<longrightarrow>
                 toLowerCase k2 \<noteq> toLowerCase k) \<longrightarrow>
              Metadata_c (s3CopyCommand ''bucket'' ''cdn/abc'' cur examplePatch) (toLowerCase k)
                = (if toLowerCase k = ''__proto__'' \<and>
                      metadataOrEmpty (Metadata cur) ''__proto__'' = None
                   then None else Some v)"
    and cu: "\<forall>v. (''customTime'', v) \<in> set examplePatch \<and>
              (\<forall>k2 \<in> fst ` set examplePatch. k2 \<noteq> ''customTime'' \<longrightarrow> toLowerCase k2 \<noteq> ''customtime'') \<longrightarrow>
              Metadata_c (s3CopyCommand ''bucket'' ''cdn/abc'' cur examplePatch) ''customtime''
                = (if v \<noteq> [] then Some v
                   else metadataOrEmpty (Metadata cur) ''customtime'')"
    by blast
  have cur: "cur = exampleHead" using c by simp
  have "ContentType_c (s3CopyCommand ''bucket'' ''cdn/abc'' exampleHead examplePatch) = Some ''text/plain''"
    using ct old(2) unfolding cur by simp
  moreover have "Metadata_c (s3CopyCommand ''bucket'' ''cdn/abc'' exampleHead examplePatch)
      ''uploaderidentitykey'' = Some ''02ab''"
    using fr [rule_format, OF k1] old(1) unfolding cur by simp
  moreover have "Metadata_c (s3CopyCommand ''bucket'' ''cdn/abc'' exampleHead examplePatch) ''owner''
      = Some ''me''"
    using wr [rule_format, OF k2] unfolding cur lower by simp
  moreover have "Metadata_c (s3CopyCommand ''bucket'' ''cdn/abc'' exampleHead examplePatch) ''customtime''
      = Some ''2031-01-01T00:00:00.000Z''"
    using cu [rule_format, OF k3] unfolding cur by simp
  ultimately show ?thesis by (intro conjI)
qed

text \<open>
  The claim as the specification words it fails for a patch entry \<^verbatim>\<open>customTime\<close> with the
  empty string: it collides with the stored \<^verbatim>\<open>customtime\<close> and the stored value stays.
\<close>

theorem S3_updateObjectMetadata_empty_customTime_counterexample:
  "metadataOrEmpty (Metadata exampleHead) ''customtime'' = Some ''2030-01-01T00:00:00.000Z'' \<and>
   Metadata_c (s3CopyCommand ''bucket'' ''cdn/abc'' exampleHead [(''customTime'', [])]) ''customtime''
     = Some ''2030-01-01T00:00:00.000Z''"
  by (simp add: s3CopyCommand_def s3NewMetadata_def metadataOrEmpty_def exampleHead_def truthy_def
      patchStep_def)

text \<open>
  A patch entry under the key \<^verbatim>\<open>__proto__\<close> writes nothing onto metadata that has no such
  key, and replaces the value of metadata that has one.
\<close>

lemma s3NewMetadata_proto_key:
  "s3NewMetadata [(''__proto__'', ''x'')] (Metadata exampleHead) ''__proto__'' = None \<and>
   s3NewMetadata [(''__PROTO__'', ''x'')] (Some (Map.empty(''__proto__'' \<mapsto> ''y''))) ''__proto__''
     = Some ''x''"
proof -
  have lower: "toLowerCase ''__proto__'' = ''__proto__''" "toLowerCase ''__PROTO__'' = ''__proto__''"
    by code_simp+
  show ?thesis
    by (simp add: s3NewMetadata_def metadataOrEmpty_def exampleHead_def truthy_def
        patchStep_def assign_def lower)
qed

lemma toLowerCase_gcs: "toLowerCase ''gcs'' = ''gcs''"
  by code_simp

lemma GCS_constructor_ok:
  "truthy (env ''STORAGE_BUCKET_NAME'') \<or> truthy (env ''GCP_BUCKET_NAME'') \<Longrightarrow>
   truthy (env ''GCP_PROJECT_ID'') \<Longrightarrow>
   \<exists>b pr. GCS_constructor env = Inr (b, pr)"
  by (auto simp add: GCS_constructor_def orDefault_def truthy_def Let_def split: option.splits)

lemma S3_constructor_ok:
  "truthy (env ''STORAGE_BUCKET_NAME'') \<or> truthy (env ''AWS_BUCKET_NAME'') \<Longrightarrow>
   \<exists>b rg. S3_constructor env = Inr (b, rg)"
  by (auto simp add: S3_constructor_def orDefault_def truthy_def Let_def split: option.splits)

lemma GCS_constructor_missing:
  "\<not> (truthy (env ''STORAGE_BUCKET_NAME'') \<or> truthy (env ''GCP_BUCKET_NAME'')) \<or>
   \<not> truthy (env ''GCP_PROJECT_ID'') \<Longrightarrow>
   GCS_constructor env = Inl MissingGCSVariables"
  by (auto simp add: GCS_constructor_def orDefault_def truthy_def Let_def split: option.splits)

lemma S3_constructor_missing:
  "\<not> (truthy (env ''STORAGE_BUCKET_NAME'') \<or> truthy (env ''AWS_BUCKET_NAME'')) \<Longrightarrow>
   S3_constructor env = Inl MissingS3BucketName"
  by (auto simp add: S3_constructor_def orDefault_def truthy_def Let_def split: option.splits)

text \<open>The provider type read when no provider is cached yet.\<close>

lemma providerType_gcs:
  assumes "\<not> truthy (env ''STORAGE_PROVIDER'') \<or>
           (\<exists>v. env ''STORAGE_PROVIDER'' = Some v \<and> toLowerCase v = ''gcs'')"
  shows "toLowerCase (orDefault (env ''STORAGE_PROVIDER'') ''gcs'') = ''gcs''"
proof (cases "truthy (env ''STORAGE_PROVIDER'')")
  case False
  then show ?thesis
    by (auto simp add: orDefault_def truthy_def toLowerCase_gcs split: option.splits)
next
  case True
  with assms obtain v where v: "env ''STORAGE_PROVIDER'' = Some v" "toLowerCase v = ''gcs''"
    by blast
  from True v(1) have "v \<noteq> []" by (simp add: truthy_def)
  then show ?thesis using v by (simp add: orDefault_def)
qed

lemma providerType_aws:
  assumes "env ''STORAGE_PROVIDER'' = Some v" and "toLowerCase v = ''aws''"
  shows "toLowerCase (orDefault (env ''STORAGE_PROVIDER'') ''gcs'') = ''aws''"
proof -
  have "v \<noteq> []" using assms(2) by (auto simp add: toLowerCase_def)
  then show ?thesis using assms by (simp add: orDefault_def)
qed


lemma providerType_unset:
  "\<not> truthy (env ''STORAGE_PROVIDER'') \<Longrightarrow>
   toLowerCase (orDefault (env ''STORAGE_PROVIDER'') ''gcs'') = ''gcs''"
  by (auto simp add: orDefault_def truthy_def toLowerCase_gcs split: option.splits)

lemma providerType_set:
  "env ''STORAGE_PROVIDER'' = Some v \<Longrightarrow> v \<noteq> [] \<Longrightarrow>
   toLowerCase (orDefault (env ''STORAGE_PROVIDER'') ''gcs'') = toLowerCase v"
  by (simp add: orDefault_def)

text \<open>
  C10 (as the code has it). With no provider cached: when \<^verbatim>\<open>STORAGE_PROVIDER\<close> is unset
  or empty, or lower-cases to \<^verbatim>\<open>gcs\<close>, and the GCS constructor finds a bucket name and a
  project, the call returns a GCS provider and caches it; when the variable lower-cases to
  \<^verbatim>\<open>aws\<close> and the S3 constructor finds a bucket name, it returns an S3 provider and caches
  it; when the constructor of the chosen provider misses a variable it needs, the call
  raises the constructor's error and caches nothing; for every other non-empty value it
  raises the unsupported-provider error and caches nothing. Once a provider is cached,
  every call returns that provider and leaves the cache as it is, whatever the environment
  holds.
\<close>

theorem getStorageProvider_selection:
  "((\<not> truthy (env ''STORAGE_PROVIDER'') \<or>
       (\<exists>v. env ''STORAGE_PROVIDER'' = Some v \<and> toLowerCase v = ''gcs'')) \<and>
      (truthy (env ''STORAGE_BUCKET_NAME'') \<or> truthy (env ''GCP_BUCKET_NAME'')) \<and>
      truthy (env ''GCP_PROJECT_ID'') \<longrightarrow>
      (\<exists>b pr. getStorageProvider env None
                 = (Inr (GCSStorageProvider b pr), Some (GCSStorageProvider b pr)))) \<and>
   ((\<exists>v. env ''STORAGE_PROVIDER'' = Some v \<and> toLowerCase v = ''aws'') \<and>
      (truthy (env ''STORAGE_BUCKET_NAME'') \<or> truthy (env ''AWS_BUCKET_NAME'')) \<longrightarrow>
      (\<exists>b rg. getStorageProvider env None
                 = (Inr (S3StorageProvider b rg), Some (S3StorageProvider b rg)))) \<and>
   ((\<not> truthy (env ''STORAGE_PROVIDER'') \<or>
       (\<exists>v. env ''STORAGE_PROVIDER'' = Some v \<and> toLowerCase v = ''gcs'')) \<and>
      (\<not> (truthy (env ''STORAGE_BUCKET_NAME'') \<or> truthy (env ''GCP_BUCKET_NAME'')) \<or>
       \<not> truthy (env ''GCP_PROJECT_ID'')) \<longrightarrow>
      getStorageProvider env None = (Inl MissingGCSVariables, None)) \<and>
   ((\<exists>v. env ''STORAGE_PROVIDER'' = Some v \<and> toLowerCase v = ''aws'') \<and>
      \<not> (truthy (env ''STORAGE_BUCKET_NAME'') \<or> truthy (env ''AWS_BUCKET_NAME'')) \<longrightarrow>
      getStorageProvider env None = (Inl MissingS3BucketName, None)) \<and>
   (\<forall>v. env ''STORAGE_PROVIDER'' = Some v \<and> v \<noteq> [] \<and>
        toLowerCase v \<noteq> ''gcs'' \<and> toLowerCase v \<noteq> ''aws'' \<longrightarrow>
        getStorageProvider env None = (Inl (UnsupportedProvider (toLowerCase v)), None)) \<and>
   (\<forall>provider env'. getStorageProvider env' (Some provider) = (Inr provider, Some provider)) \<and>
   (\<forall>provider cache env'. getStorageProvider env None = (Inr provider, cache) \<longrightarrow>
        getStorageProvider env' cache = (Inr provider, cache))"
proof (intro conjI impI allI)
  assume a: "(\<not> truthy (env ''STORAGE_PROVIDER'') \<or>
       (\<exists>v. env ''STORAGE_PROVIDER'' = Some v \<and> toLowerCase v = ''gcs'')) \<and>
      (truthy (env ''STORAGE_BUCKET_NAME'') \<or> truthy (env ''GCP_BUCKET_NAME'')) \<and>
      truthy (env ''GCP_PROJECT_ID'')"
  have ty: "toLowerCase (orDefault (env ''STORAGE_PROVIDER'') ''gcs'') = ''gcs''"
  proof (cases "truthy (env ''STORAGE_PROVIDER'')")
    case False
    then show ?thesis by (rule providerType_unset)
  next
    case True
    with a obtain v where v: "env ''STORAGE_PROVIDER'' = Some v" "toLowerCase v = ''gcs''"
      by blast
    from True v(1) have "v \<noteq> []" by (simp add: truthy_def)
    from providerType_set [of env v, OF v(1) this] v(2) show ?thesis by simp
  qed
  from a obtain b pr where c: "GCS_constructor env = Inr (b, pr)"
    using GCS_constructor_ok by blast
  have "getStorageProvider env None
          = (Inr (GCSStorageProvider b pr), Some (GCSStorageProvider b pr))"
    by (simp add: getStorageProvider_def ty c)
  then show "\<exists>b pr. getStorageProvider env None
                 = (Inr (GCSStorageProvider b pr), Some (GCSStorageProvider b pr))"
    by blast
next
  assume a: "(\<exists>v. env ''STORAGE_PROVIDER'' = Some v \<and> toLowerCase v = ''aws'') \<and>
      (truthy (env ''STORAGE_BUCKET_NAME'') \<or> truthy (env ''AWS_BUCKET_NAME''))"
  then obtain v where v: "env ''STORAGE_PROVIDER'' = Some v" "toLowerCase v = ''aws''"
    by blast
  have "v \<noteq> []" using v(2) by (auto simp add: toLowerCase_def)
  from providerType_set [of env v, OF v(1) this] v(2)
  have ty: "toLowerCase (orDefault (env ''STORAGE_PROVIDER'') ''gcs'') = ''aws''" by simp
  from a obtain b rg where c: "S3_constructor env = Inr (b, rg)"
    using S3_constructor_ok by blast
  have "getStorageProvider env None
          = (Inr (S3StorageProvider b rg), Some (S3StorageProvider b rg))"
    by (simp add: getStorageProvider_def ty c)
  then show "\<exists>b rg. getStorageProvider env None
                 = (Inr (S3StorageProvider b rg), Some (S3StorageProvider b rg))"
    by blast
next
  assume a: "(\<not> truthy (env ''STORAGE_PROVIDER'') \<or>
       (\<exists>v. env ''STORAGE_PROVIDER'' = Some v \<and> toLowerCase v = ''gcs'')) \<and>
      (\<not> (truthy (env ''STORAGE_BUCKET_NAME'') \<or> truthy (env ''GCP_BUCKET_NAME'')) \<or>
       \<not> truthy (env ''GCP_PROJECT_ID''))"
  then have ty: "toLowerCase (orDefault (env ''STORAGE_PROVIDER'') ''gcs'') = ''gcs''"
    using providerType_gcs by blast
  from a have c: "GCS_constructor env = Inl MissingGCSVariables"
    using GCS_constructor_missing by blast
  show "getStorageProvider env None = (Inl MissingGCSVariables, None)"
    by (simp add: getStorageProvider_def ty c)
next
  assume a: "(\<exists>v. env ''STORAGE_PROVIDER'' = Some v \<and> toLowerCase v = ''aws'') \<and>
      \<not> (truthy (env ''STORAGE_BUCKET_NAME'') \<or> truthy (env ''AWS_BUCKET_NAME''))"
  then have ty: "toLowerCase (orDefault (env ''STORAGE_PROVIDER'') ''gcs'') = ''aws''"
    using providerType_aws by blast
  from a have c: "S3_constructor env = Inl MissingS3BucketName"
    using S3_constructor_missing by blast
  show "getStorageProvider env None = (Inl MissingS3BucketName, None)"
    by (simp add: getStorageProvider_def ty c)
next
  fix v
  assume a: "env ''STORAGE_PROVIDER'' = Some v \<and> v \<noteq> [] \<and>
        toLowerCase v \<noteq> ''gcs'' \<and> toLowerCase v \<noteq> ''aws''"
  then have ty: "toLowerCase (orDefault (env ''STORAGE_PROVIDER'') ''gcs'') = toLowerCase v"
    using providerType_set by blast
  show "getStorageProvider env None = (Inl (UnsupportedProvider (toLowerCase v)), None)"
    unfolding getStorageProvider_def ty using a by simp
next
  fix provider env'
  show "getStorageProvider env' (Some provider) = (Inr provider, Some provider)"
    by (simp add: getStorageProvider_def)
next
  fix provider cache env'
  assume a: "getStorageProvider env None = (Inr provider, cache)"
  then have "cache = Some provider"
    by (auto simp add: getStorageProvider_def Let_def split: if_splits sum.splits prod.splits)
  then show "getStorageProvider env' cache = (Inr provider, cache)"
    by (simp add: getStorageProvider_def)
qed

theorem getStorageProvider_selection_witness:
  "getStorageProvider gcsEnv None
     = (Inr (GCSStorageProvider ''bucket'' ''project''), Some (GCSStorageProvider ''bucket'' ''project'')) \<and>
   getStorageProvider awsEnv None
     = (Inr (S3StorageProvider ''bucket'' ''us-west-2''), Some (S3StorageProvider ''bucket'' ''us-west-2'')) \<and>
   getStorageProvider (gcsEnv(''STORAGE_PROVIDER'' \<mapsto> ''azure'')) None
     = (Inl (UnsupportedProvider ''azure''), None) \<and>
   getStorageProvider awsEnv (Some (GCSStorageProvider ''bucket'' ''project''))
     = (Inr (GCSStorageProvider ''bucket'' ''project''), Some (GCSStorageProvider ''bucket'' ''project''))"
proof -
  have g: "(\<not> truthy (gcsEnv ''STORAGE_PROVIDER'') \<or>
       (\<exists>v. gcsEnv ''STORAGE_PROVIDER'' = Some v \<and> toLowerCase v = ''gcs'')) \<and>
      (truthy (gcsEnv ''STORAGE_BUCKET_NAME'') \<or> truthy (gcsEnv ''GCP_BUCKET_NAME'')) \<and>
      truthy (gcsEnv ''GCP_PROJECT_ID'')"
    by (simp add: gcsEnv_def truthy_def)
  have lower: "toLowerCase ''AWS'' = ''aws''" "toLowerCase ''azure'' = ''azure''"
    by code_simp+
  have s: "(\<exists>v. awsEnv ''STORAGE_PROVIDER'' = Some v \<and> toLowerCase v = ''aws'') \<and>
      (truthy (awsEnv ''STORAGE_BUCKET_NAME'') \<or> truthy (awsEnv ''AWS_BUCKET_NAME''))"
    by (simp add: awsEnv_def truthy_def lower)
  have u: "(gcsEnv(''STORAGE_PROVIDER'' \<mapsto> ''azure'')) ''STORAGE_PROVIDER'' = Some ''azure'' \<and>
      ''azure'' \<noteq> [] \<and> toLowerCase ''azure'' \<noteq> ''gcs'' \<and> toLowerCase ''azure'' \<noteq> ''aws''"
    by (simp add: lower)
  have gv: "getStorageProvider gcsEnv None
     = (Inr (GCSStorageProvider ''bucket'' ''project''), Some (GCSStorageProvider ''bucket'' ''project''))"
    by code_simp
  from getStorageProvider_selection [of gcsEnv, THEN conjunct1, rule_format, OF g]
  have ge: "\<exists>b pr. getStorageProvider gcsEnv None
                 = (Inr (GCSStorageProvider b pr), Some (GCSStorageProvider b pr))" .
  have sv: "getStorageProvider awsEnv None
     = (Inr (S3StorageProvider ''bucket'' ''us-west-2''), Some (S3StorageProvider ''bucket'' ''us-west-2''))"
    by code_simp
  from getStorageProvider_selection [of awsEnv, THEN conjunct2, THEN conjunct1, rule_format, OF s]
  have se: "\<exists>b rg. getStorageProvider awsEnv None
                 = (Inr (S3StorageProvider b rg), Some (S3StorageProvider b rg))" .
  from getStorageProvider_selection [of "gcsEnv(''STORAGE_PROVIDER'' \<mapsto> ''azure'')",
      THEN conjunct2, THEN conjunct2, THEN conjunct2, THEN conjunct2, THEN conjunct1,
      rule_format, OF u]
  have uv: "getStorageProvider (gcsEnv(''STORAGE_PROVIDER'' \<mapsto> ''azure'')) None
     = (Inl (UnsupportedProvider ''azure''), None)"
    unfolding lower .
  from getStorageProvider_selection [of gcsEnv,
      THEN conjunct2, THEN conjunct2, THEN conjunct2, THEN conjunct2, THEN conjunct2,
      THEN conjunct2, rule_format, OF gv]
  have cv: "getStorageProvider awsEnv (Some (GCSStorageProvider ''bucket'' ''project''))
     = (Inr (GCSStorageProvider ''bucket'' ''project''), Some (GCSStorageProvider ''bucket'' ''project''))" .
  from ge se gv sv uv cv show ?thesis by (intro conjI)
qed

text \<open>
  The claim as the specification words it fails twice. An empty \<^verbatim>\<open>STORAGE_PROVIDER\<close> is a
  value other than \<^verbatim>\<open>gcs\<close> and \<^verbatim>\<open>aws\<close>, yet no error is raised: the GCS provider is
  returned. And with the variable unset the GCS provider is not returned when its
  constructor finds no project: the constructor's error is raised.
\<close>

theorem getStorageProvider_empty_value_counterexample:
  "getStorageProvider (gcsEnv(''STORAGE_PROVIDER'' \<mapsto> [])) None
     = (Inr (GCSStorageProvider ''bucket'' ''project''), Some (GCSStorageProvider ''bucket'' ''project'')) \<and>
   getStorageProvider Map.empty None = (Inl MissingGCSVariables, None)"
  by code_simp

section \<open>Properties of the ingestion pipeline\<close>

text \<open>The five ways the \<^verbatim>\<open>try\<close> block of \<^verbatim>\<open>processS3Object\<close> can end, with the calls made.\<close>

lemma processS3Object_try_cases:
  assumes "processS3Object_try env b k s = (res, s')"
  shows "processingErrors s' = processingErrors s \<and>
    ((\<exists>e. res = Inl (S3Failure e) \<and> calls s' = calls s @ [(HeadObject b k, False)]) \<or>
     (res = Inl MissingUploaderIdentityKey \<and> calls s' = calls s @ [(HeadObject b k, True)] \<and>
        (\<exists>metadata. s3Head env (calls s) b k = Inr metadata \<and> uploaderOf metadata = None)) \<or>
     (\<exists>e. res = Inl (S3Failure e) \<and>
        calls s' = calls s @ [(HeadObject b k, True), (GetObject b k, False)]) \<or>
     (\<exists>e d. res = Inl (PostFailure e) \<and>
        calls s' = calls s @ [(HeadObject b k, True), (GetObject b k, True), (AdvertisePost d, False)]) \<or>
     (\<exists>d. res = Inr () \<and> processedEvents s' = processedEvents s + 1 \<and>
        objectIdentifier_n d = lastSegment k \<and>
        calls s' = calls s @ [(HeadObject b k, True), (GetObject b k, True), (AdvertisePost d, True)]))"
proof (cases "s3Head env (calls s) b k")
  case (Inl e)
  then show ?thesis using assms by (auto simp add: processS3Object_try_def logCall_def)
next
  case (Inr metadata)
  note head = Inr
  show ?thesis
  proof (cases "uploaderOf metadata")
    case None
    then show ?thesis using assms head
      by (auto simp add: processS3Object_try_def logCall_def)
  next
    case (Some u)
    note up = Some
    let ?s1 = "logCall s (HeadObject b k) True"
    show ?thesis
    proof (cases "s3Get env (calls ?s1) b k")
      case (Inl e)
      then show ?thesis using assms head up
        by (auto simp add: processS3Object_try_def logCall_def)
    next
      case (Inr content)
      note get = Inr
      let ?s2 = "logCall ?s1 (GetObject b k) True"
      let ?d = "\<lparr> adminToken_n = ADMIN_TOKEN env, uhrpUrl_n = uhrpUrlForHash env content,
                  uploaderIdentityKey_n = u, objectIdentifier_n = lastSegment k,
                  expiryTime_n = expiryOf env (calls ?s1) metadata,
                  fileSize_n = ContentLength metadata \<rparr>"
      show ?thesis
      proof (cases "axiosPost env (calls ?s2) ?d")
        case (Inl e)
        then have "res = Inl (PostFailure e)"
          and "s' = logCall ?s2 (AdvertisePost ?d) False"
          using assms head up get by (simp_all add: processS3Object_try_def Let_def)
        then show ?thesis by (auto simp add: logCall_def)
      next
        case (Inr x)
        then have "res = Inr ()"
          and "s' = (logCall ?s2 (AdvertisePost ?d) True)\<lparr> processedEvents := processedEvents s + 1 \<rparr>"
          using assms head up get by (simp_all add: processS3Object_try_def Let_def)
        then have "res = Inr () \<and> processedEvents s' = processedEvents s + 1 \<and>
            objectIdentifier_n ?d = lastSegment k \<and>
            calls s' = calls s @ [(HeadObject b k, True), (GetObject b k, True), (AdvertisePost ?d, True)]"
          and "processingErrors s' = processingErrors s"
          by (simp_all add: logCall_def)
        then show ?thesis by blast
      qed
    qed
  qed
qed

lemma isDelete_simps [simp]:
  "\<not> isDelete (HeadObject b k, ok)" "\<not> isDelete (GetObject b k, ok)"
  "\<not> isDelete (AdvertisePost d, ok)" "\<not> isDelete (ReceiveMessage, ok)"
  "isDelete (DeleteMessage h, ok)"
  by (simp_all add: isDelete_def)

lemma isAdvertise_simps [simp]:
  "\<not> isAdvertise (HeadObject b k, ok)" "\<not> isAdvertise (GetObject b k, ok)"
  "isAdvertise (AdvertisePost d, ok)" "\<not> isAdvertise (ReceiveMessage, ok)"
  "\<not> isAdvertise (DeleteMessage h, ok)"
  by (simp_all add: isAdvertise_def)

lemma succeeded_simps [simp]: "succeeded (c, ok) = ok"
  by (simp add: succeeded_def)

text \<open>
  What one object adds to the log: never a delete; and when it ends well, only calls that
  succeeded, with exactly one registration if the key is under \<^verbatim>\<open>cdn/\<close> and none
  otherwise.
\<close>

lemma processS3Object_try_calls:
  assumes "processS3Object_try env b k s = (res, s')"
  shows "\<exists>new. calls s' = calls s @ new \<and> (\<forall>c \<in> set new. \<not> isDelete c) \<and>
           (res = Inr () \<longrightarrow> (\<forall>c \<in> set new. succeeded c) \<and>
              length (filter isAdvertise new) = 1) \<and>
           ((\<exists>c \<in> set new. \<not> succeeded c) \<longrightarrow> res \<noteq> Inr ())"
proof -
  note cases = processS3Object_try_cases [OF assms, THEN conjunct2]
  {
    fix new
    assume "calls s' = calls s @ new" and "\<forall>c \<in> set new. \<not> isDelete c"
      and "res = Inr () \<longrightarrow> (\<forall>c \<in> set new. succeeded c) \<and> length (filter isAdvertise new) = 1"
      and "(\<exists>c \<in> set new. \<not> succeeded c) \<longrightarrow> res \<noteq> Inr ()"
    then have ?thesis by blast
  }
  note give = this
  from cases show ?thesis
  proof (elim disjE exE conjE)
    fix e
    assume "res = Inl (S3Failure e)" "calls s' = calls s @ [(HeadObject b k, False)]"
    then show ?thesis by (intro give [of "[(HeadObject b k, False)]"]) simp_all
  next
    fix metadata
    assume "res = Inl MissingUploaderIdentityKey" "calls s' = calls s @ [(HeadObject b k, True)]"
    then show ?thesis by (intro give [of "[(HeadObject b k, True)]"]) simp_all
  next
    fix e
    assume "res = Inl (S3Failure e)"
      "calls s' = calls s @ [(HeadObject b k, True), (GetObject b k, False)]"
    then show ?thesis
      by (intro give [of "[(HeadObject b k, True), (GetObject b k, False)]"]) simp_all
  next
    fix e d
    assume "res = Inl (PostFailure e)"
      "calls s' = calls s @ [(HeadObject b k, True), (GetObject b k, True), (AdvertisePost d, False)]"
    then show ?thesis
      by (intro give [of "[(HeadObject b k, True), (GetObject b k, True), (AdvertisePost d, False)]"])
         simp_all
  next
    fix d
    assume "res = Inr ()"
      "calls s' = calls s @ [(HeadObject b k, True), (GetObject b k, True), (AdvertisePost d, True)]"
    then show ?thesis
      by (intro give [of "[(HeadObject b k, True), (GetObject b k, True), (AdvertisePost d, True)]"])
         simp_all
  qed
qed

lemma processS3Object_calls:
  assumes "processS3Object env b k s = (res, s')"
  shows "\<exists>new. calls s' = calls s @ new \<and> (\<forall>c \<in> set new. \<not> isDelete c) \<and>
           (res = Inr () \<longrightarrow> (\<forall>c \<in> set new. succeeded c) \<and>
              length (filter isAdvertise new) = (if startsWith k ''cdn/'' then 1 else 0)) \<and>
           ((\<exists>c \<in> set new. \<not> succeeded c) \<longrightarrow> res \<noteq> Inr ())"
proof (cases "startsWith k ''cdn/''")
  case False
  then have "res = Inr ()" "s' = s" using assms by (simp_all add: processS3Object_def)
  then show ?thesis using False by simp
next
  case True
  obtain r1 s1 where t: "processS3Object_try env b k s = (r1, s1)"
    by (cases "processS3Object_try env b k s")
  have res: "res = r1" using assms True t
    by (cases r1) (simp_all add: processS3Object_def)
  have cs: "calls s' = calls s1"
    using assms True t by (cases r1) (auto simp add: processS3Object_def)
  from processS3Object_try_calls [OF t] show ?thesis
    unfolding res cs if_P [OF True] .
qed


lemma processRecord_calls:
  assumes "processRecord env r s = (res, s')"
  shows "\<exists>new. calls s' = calls s @ new \<and> (\<forall>c \<in> set new. \<not> isDelete c) \<and>
           (res = Inr () \<longrightarrow> (\<forall>c \<in> set new. succeeded c) \<and>
              length (filter isAdvertise new) = (if needsRegistration env r then 1 else 0)) \<and>
           ((\<exists>c \<in> set new. \<not> succeeded c) \<longrightarrow> res \<noteq> Inr ())"
proof -
  have trivial: "s' = s \<Longrightarrow> \<not> needsRegistration env r \<Longrightarrow> ?thesis"
    by simp
  show ?thesis
  proof (cases "eventName r")
    case None
    then show ?thesis using assms
      by (intro trivial) (auto simp add: processRecord_def needsRegistration_def)
  next
    case (Some n)
    note n = Some
    show ?thesis
    proof (cases "startsWith n ''ObjectCreated:''")
      case False
      then show ?thesis using assms n
        by (intro trivial) (auto simp add: processRecord_def needsRegistration_def)
    next
      case True
      note created = True
      show ?thesis
      proof (cases "s3 r")
        case None
        then show ?thesis using assms n created
          by (intro trivial) (auto simp add: processRecord_def needsRegistration_def)
      next
        case (Some loc)
        obtain b raw where loc: "loc = (b, raw)" by (cases loc)
        note s3r = Some [unfolded loc]
        show ?thesis
        proof (cases "decodeURIComponent env (plusToSpace raw)")
          case None
          then show ?thesis using assms n created s3r
            by (intro trivial) (auto simp add: processRecord_def needsRegistration_def)
        next
          case (Some k)
          then have run: "processS3Object env b k s = (res, s')"
            using assms n created s3r by (simp add: processRecord_def)
          have nr: "needsRegistration env r = startsWith k ''cdn/''"
            using n created s3r Some by (simp add: needsRegistration_def)
          from processS3Object_calls [OF run] show ?thesis unfolding nr .
        qed
      qed
    qed
  qed
qed

lemma processRecords_calls:
  "processRecords env rs s = (res, s') \<Longrightarrow>
   \<exists>new. calls s' = calls s @ new \<and> (\<forall>c \<in> set new. \<not> isDelete c) \<and>
     (res = Inr () \<longrightarrow> (\<forall>c \<in> set new. succeeded c) \<and>
        length (filter isAdvertise new) = length (filter (needsRegistration env) rs)) \<and>
     ((\<exists>c \<in> set new. \<not> succeeded c) \<longrightarrow> res \<noteq> Inr ())"
proof (induction rs arbitrary: s)
  case Nil
  then show ?case by simp
next
  case (Cons r rs)
  obtain r1 s1 where one: "processRecord env r s = (r1, s1)"
    by (cases "processRecord env r s")
  from processRecord_calls [OF one] obtain new1 where
    n1: "calls s1 = calls s @ new1" "\<forall>c \<in> set new1. \<not> isDelete c"
        "r1 = Inr () \<longrightarrow> (\<forall>c \<in> set new1. succeeded c) \<and>
           length (filter isAdvertise new1) = (if needsRegistration env r then 1 else 0)"
        "(\<exists>c \<in> set new1. \<not> succeeded c) \<longrightarrow> r1 \<noteq> Inr ()"
    by blast
  show ?case
  proof (cases r1)
    case (Inl e)
    then have "res = Inl e" "s' = s1" using Cons.prems one by simp_all
    then show ?thesis using n1 by auto
  next
    case (Inr u)
    then have rest: "processRecords env rs s1 = (res, s')" using Cons.prems one by simp
    from Cons.IH [OF rest] obtain new2 where
      n2: "calls s' = calls s1 @ new2" "\<forall>c \<in> set new2. \<not> isDelete c"
          "res = Inr () \<longrightarrow> (\<forall>c \<in> set new2. succeeded c) \<and>
             length (filter isAdvertise new2) = length (filter (needsRegistration env) rs)"
          "(\<exists>c \<in> set new2. \<not> succeeded c) \<longrightarrow> res \<noteq> Inr ()"
      by blast
    have r1: "r1 = Inr ()" using Inr by simp
    have a: "calls s' = calls s @ (new1 @ new2)" using n1(1) n2(1) by simp
    have b: "\<forall>c \<in> set (new1 @ new2). \<not> isDelete c" using n1(2) n2(2) by auto
    have d: "res = Inr () \<longrightarrow> (\<forall>c \<in> set (new1 @ new2). succeeded c) \<and>
        length (filter isAdvertise (new1 @ new2)) = length (filter (needsRegistration env) (r # rs))"
      using n1(3) n2(3) r1 by auto
    have e: "(\<exists>c \<in> set (new1 @ new2). \<not> succeeded c) \<longrightarrow> res \<noteq> Inr ()"
      using n1(3) n2(4) r1 by auto
    from a b d e show ?thesis by blast
  qed
qed


text \<open>The \<^verbatim>\<open>try\<close> block of \<^verbatim>\<open>processMessage\<close> once the body has parsed.\<close>

lemma processMessage_try_parsed:
  assumes "Body message \<noteq> Unparseable"
  shows "processMessage_try env message s =
     (case processRecords env (recordsOf message) s of
        (Inl e, s') \<Rightarrow> (Inl e, s')
      | (Inr u, s') \<Rightarrow>
          (case sqsDelete env (calls s') (ReceiptHandle message) of
             Inl e \<Rightarrow> (Inl (SqsFailure e), logCall s' (DeleteMessage (ReceiptHandle message)) False)
           | Inr u' \<Rightarrow> (Inr (), logCall s' (DeleteMessage (ReceiptHandle message)) True)))"
  using assms by (cases "Body message") (simp_all add: processMessage_try_def recordsOf_def)

lemma processMessage_calls_eq:
  "calls (snd (processMessage env message s)) = calls (snd (processMessage_try env message s))"
  by (cases "processMessage_try env message s"; cases "fst (processMessage_try env message s)")
     (auto simp add: processMessage_def)


text \<open>The calls of one message: those of its records, then the delete if they all ended well.\<close>

lemma processMessage_try_calls:
  assumes "Body message \<noteq> Unparseable"
    and "processRecords env (recordsOf message) s = (r1, s1)"
  shows "(\<forall>e. r1 = Inl e \<longrightarrow> calls (snd (processMessage_try env message s)) = calls s1) \<and>
         (r1 = Inr () \<longrightarrow> calls (snd (processMessage_try env message s)) =
            calls s1 @ [(DeleteMessage (ReceiptHandle message),
                         \<not> isl (sqsDelete env (calls s1) (ReceiptHandle message)))])"
  unfolding processMessage_try_parsed [OF assms(1)] assms(2)
  by (cases r1; cases "sqsDelete env (calls s1) (ReceiptHandle message)")
     (simp_all add: logCall_def)

text \<open>
  C4. Take the calls that processing one message adds to the log. If a delete is among
  them, it is the last call, it deletes this message, every call before it (metadata
  fetch, download, registration) succeeded, and the registrations before it are as many as
  the object-created records of the message under \<^verbatim>\<open>cdn/\<close>: each was registered with
  success first. If any call other than the delete failed, or the loop over the records
  ended with an error of any kind, or the body did not parse, no delete is sent.
\<close>

theorem processMessage_delete_only_after_success:
  assumes "processMessage env message s = (res, s')"
  shows "\<exists>new. calls s' = calls s @ new \<and>
          (\<forall>d \<in> set new. isDelete d \<longrightarrow>
             (\<exists>pre. new = pre @ [d] \<and> fst d = DeleteMessage (ReceiptHandle message) \<and>
                (\<forall>c \<in> set pre. succeeded c \<and> \<not> isDelete c) \<and>
                length (filter isAdvertise pre)
                  = length (filter (needsRegistration env) (recordsOf message)))) \<and>
          ((\<exists>c \<in> set new. \<not> isDelete c \<and> \<not> succeeded c) \<longrightarrow> (\<forall>d \<in> set new. \<not> isDelete d)) \<and>
          ((\<exists>e s1. processRecords env (recordsOf message) s = (Inl e, s1)) \<longrightarrow>
             (\<forall>d \<in> set new. \<not> isDelete d)) \<and>
          (Body message = Unparseable \<longrightarrow> new = [])"
proof -
  have cs: "calls s' = calls (snd (processMessage_try env message s))"
    using processMessage_calls_eq [of env message s] assms by simp
  show ?thesis
  proof (cases "Body message = Unparseable")
    case True
    then have "calls s' = calls s @ []"
      unfolding cs by (simp add: processMessage_try_def)
    then show ?thesis using True by (intro exI [of _ "[]"]) simp
  next
    case False
    obtain r1 s1 where loop: "processRecords env (recordsOf message) s = (r1, s1)"
      by (cases "processRecords env (recordsOf message) s")
    from processRecords_calls [OF loop] obtain new1 where
      n1: "calls s1 = calls s @ new1" "\<forall>c \<in> set new1. \<not> isDelete c"
          "r1 = Inr () \<longrightarrow> (\<forall>c \<in> set new1. succeeded c) \<and>
             length (filter isAdvertise new1)
               = length (filter (needsRegistration env) (recordsOf message))"
          "(\<exists>c \<in> set new1. \<not> succeeded c) \<longrightarrow> r1 \<noteq> Inr ()"
      by blast
    note tc = processMessage_try_calls [OF False loop]
    show ?thesis
    proof (cases r1)
      case (Inl e)
      then have "calls s' = calls s @ new1" using tc n1(1) cs by simp
      then show ?thesis using n1(2) False by (intro exI [of _ new1]) simp
    next
      case (Inr u)
      then have r1: "r1 = Inr ()" by simp
      let ?d = "(DeleteMessage (ReceiptHandle message),
                 \<not> isl (sqsDelete env (calls s1) (ReceiptHandle message)))"
      have a: "calls s' = calls s @ (new1 @ [?d])" using tc r1 n1(1) cs by simp
      have b: "\<forall>d \<in> set (new1 @ [?d]). isDelete d \<longrightarrow>
             (\<exists>pre. new1 @ [?d] = pre @ [d] \<and> fst d = DeleteMessage (ReceiptHandle message) \<and>
                (\<forall>c \<in> set pre. succeeded c \<and> \<not> isDelete c) \<and>
                length (filter isAdvertise pre)
                  = length (filter (needsRegistration env) (recordsOf message)))"
      proof (intro ballI impI)
        fix d
        assume "d \<in> set (new1 @ [?d])" and "isDelete d"
        then have "d = ?d" using n1(2) by auto
        then show "\<exists>pre. new1 @ [?d] = pre @ [d] \<and> fst d = DeleteMessage (ReceiptHandle message) \<and>
                (\<forall>c \<in> set pre. succeeded c \<and> \<not> isDelete c) \<and>
                length (filter isAdvertise pre)
                  = length (filter (needsRegistration env) (recordsOf message))"
          using n1(2,3) r1 by (intro exI [of _ new1]) simp
      qed
      have c: "\<not> (\<exists>c \<in> set (new1 @ [?d]). \<not> isDelete c \<and> \<not> succeeded c)"
        using n1(3) r1 by auto
      have d: "\<not> (\<exists>e s2. processRecords env (recordsOf message) s = (Inl e, s2))"
        using loop r1 by simp
      from a b c d False show ?thesis by (intro exI [of _ "new1 @ [?d]"]) blast
    qed
  qed
qed

theorem processMessage_delete_only_after_success_witness:
  "calls (snd (processMessage exampleSurroundings (createdMessage ''cdn/abc'') initialState))
     = [(HeadObject ''bucket'' ''cdn/abc'', True), (GetObject ''bucket'' ''cdn/abc'', True),
        (AdvertisePost exampleNotification, True), (DeleteMessage ''receipt-cdn/abc'', True)] \<and>
   (\<exists>pre. calls (snd (processMessage exampleSurroundings (createdMessage ''cdn/abc'') initialState))
        = pre @ [(DeleteMessage ''receipt-cdn/abc'', True)] \<and>
      length (filter isAdvertise pre) = 1)"
proof -
  let ?s' = "\<lparr> processedEvents = 1, processingErrors = 0,
      calls = [(HeadObject ''bucket'' ''cdn/abc'', True), (GetObject ''bucket'' ''cdn/abc'', True),
        (AdvertisePost exampleNotification, True), (DeleteMessage ''receipt-cdn/abc'', True)] \<rparr>"
  let ?d = "(DeleteMessage ''receipt-cdn/abc'', True)"
  have run: "processMessage exampleSurroundings (createdMessage ''cdn/abc'') initialState = (Inr (), ?s')"
    by code_simp
  have n: "length (filter (needsRegistration exampleSurroundings)
             (recordsOf (createdMessage ''cdn/abc''))) = 1"
    by code_simp
  from processMessage_delete_only_after_success [OF run] obtain new where
    new: "calls ?s' = calls initialState @ new"
    and del: "\<forall>d \<in> set new. isDelete d \<longrightarrow>
             (\<exists>pre. new = pre @ [d] \<and>
                length (filter isAdvertise pre)
                  = length (filter (needsRegistration exampleSurroundings)
                      (recordsOf (createdMessage ''cdn/abc''))))"
    by blast
  have new': "new = calls ?s'" using new by (simp add: initialState_def)
  have "?d \<in> set new" unfolding new' by simp
  moreover have "isDelete ?d" by simp
  ultimately have "\<exists>pre. new = pre @ [?d] \<and> length (filter isAdvertise pre) = 1"
    using del n by fastforce
  then show ?thesis unfolding new' run by simp
qed









subsection \<open>The batch, with its messages taking turns\<close>

lemma settle_Inl: "settle (Inl e, s) = (Settled, countError s)"
  by (simp add: settle_def)

lemma settle_Inr: "settle (Inr st, s) = (st, s)"
  by (simp add: settle_def)

lemma countError_calls: "calls (countError s) = calls s"
  by (simp add: countError_def)

lemma countError_errors: "processingErrors (countError s) = processingErrors s + 1"
  by (simp add: countError_def)

lemma logCall_calls: "calls (logCall s c ok) = calls s @ [(c, ok)]"
  by (simp add: logCall_def)

lemma logCall_errors: "processingErrors (logCall s c ok) = processingErrors s"
  by (simp add: logCall_def)

lemmas state_simps =
  settle_Inl settle_Inr countError_calls countError_errors logCall_calls logCall_errors


lemma startRecords_steps: "startRecords env rs = Inr st \<Longrightarrow> steps st \<le> 3 * length rs + 1"
proof (induction rs)
  case Nil
  then show ?case by auto
next
  case (Cons r rs)
  show ?case
  proof (cases "startRecords env (r # rs) = startRecords env rs")
    case True
    then have "steps st \<le> 3 * length rs + 1" using Cons by simp
    then show ?thesis by simp
  next
    case False
    then have "\<exists>b k. st = AwaitHead b k rs" using Cons.prems
      by (auto split: option.splits prod.splits if_splits)
    then show ?thesis by auto
  qed
qed

lemma isSettled_iff: "isSettled st \<longleftrightarrow> st = Settled"
  by (cases st) simp_all










text \<open>One answer delivered, and a schedule of them.\<close>

lemma deliver_in:
  "i < length tasks \<Longrightarrow> i < length ms \<Longrightarrow>
   deliver env ms (s, tasks) i
     = (snd (resume env (ms ! i) (tasks ! i) s), tasks[i := fst (resume env (ms ! i) (tasks ! i) s)])"
  by (simp add: deliver_def split: prod.splits)

lemma deliver_out:
  "\<not> (i < length tasks \<and> i < length ms) \<Longrightarrow> deliver env ms (s, tasks) i = (s, tasks)"
  by (auto simp add: deliver_def)

lemma runSchedule_Nil: "runSchedule env ms [] cfg = cfg"
  by (simp add: runSchedule_def)

lemma runSchedule_Cons:
  "runSchedule env ms (i # sched) cfg = runSchedule env ms sched (deliver env ms cfg i)"
  by (simp add: runSchedule_def)


text \<open>
  What one answer does to the message it is delivered to: it logs at most one call, a
  delete only when the message was waiting for its delete; it loses no counted error; it
  uses up one of the steps the message can still need.
\<close>

lemma resume_Settled: "resume env m Settled s = (Settled, s)"
  by (simp add: resume_def resume_try_def state_simps)

lemma resume_AwaitDelete:
  "resume env m AwaitDelete s =
     (case sqsDelete env (calls s) (ReceiptHandle m) of
        Inl e \<Rightarrow> (Settled, countError (logCall s (DeleteMessage (ReceiptHandle m)) False))
      | Inr u \<Rightarrow> (Settled, logCall s (DeleteMessage (ReceiptHandle m)) True))"
  by (simp add: resume_def resume_try_def state_simps split: sum.splits)

lemma resume_AwaitHead:
  "resume env m (AwaitHead b k rest) s =
     (case s3Head env (calls s) b k of
        Inl e \<Rightarrow> (Settled, countError (countError (logCall s (HeadObject b k) False)))
      | Inr metadata \<Rightarrow>
          (case uploaderOf metadata of
             None \<Rightarrow> (Settled, countError (countError (logCall s (HeadObject b k) True)))
           | Some u \<Rightarrow>
               (AwaitGet b k metadata u
                  (expiryOf env (calls (logCall s (HeadObject b k) True)) metadata) rest,
                logCall s (HeadObject b k) True)))"
  by (simp add: resume_def resume_try_def state_simps Let_def split: sum.splits option.splits)

lemma resume_AwaitGet:
  "resume env m (AwaitGet b k metadata u e rest) s =
     (case s3Get env (calls s) b k of
        Inl err \<Rightarrow> (Settled, countError (countError (logCall s (GetObject b k) False)))
      | Inr content \<Rightarrow>
          (AwaitPost \<lparr> adminToken_n = ADMIN_TOKEN env,
                       uhrpUrl_n = uhrpUrlForHash env content,
                       uploaderIdentityKey_n = u,
                       objectIdentifier_n = lastSegment k,
                       expiryTime_n = e,
                       fileSize_n = ContentLength metadata \<rparr> rest,
           logCall s (GetObject b k) True))"
  by (simp add: resume_def resume_try_def state_simps split: sum.splits)

lemma resume_AwaitPost:
  "resume env m (AwaitPost d rest) s =
     (case axiosPost env (calls s) d of
        Inl err \<Rightarrow> (Settled, countError (countError (logCall s (AdvertisePost d) False)))
      | Inr u \<Rightarrow>
          settle (startRecords env rest,
                  (logCall s (AdvertisePost d) True)\<lparr> processedEvents := processedEvents s + 1 \<rparr>))"
  by (simp add: resume_def resume_try_def state_simps split: sum.splits)

lemmas resume_simps =
  resume_Settled resume_AwaitDelete resume_AwaitHead resume_AwaitGet resume_AwaitPost





lemma settle_steps:
  "(\<And>st. res = Inr st \<Longrightarrow> steps st \<le> n) \<Longrightarrow> steps (fst (settle (res, s))) \<le> n"
  by (cases res) (simp_all add: state_simps)

lemma resume_steps: "steps (fst (resume env m st s)) \<le> steps st - 1"
proof (cases st)
  case (AwaitHead b k rest)
  then show ?thesis
    by (simp add: resume_simps split: sum.splits option.splits)
next
  case (AwaitGet b k metadata u e rest)
  then show ?thesis
    by (simp add: resume_simps split: sum.splits)
next
  case (AwaitPost d rest)
  have "steps (fst (settle (startRecords env rest,
      (logCall s (AdvertisePost d) True)\<lparr> processedEvents := processedEvents s + 1 \<rparr>)))
      \<le> 3 * length rest + 1"
    by (rule settle_steps) (rule startRecords_steps)
  then show ?thesis using AwaitPost
    by (simp add: resume_simps split: sum.splits)
next
  case AwaitDelete
  then show ?thesis
    by (simp add: resume_simps split: sum.splits)
next
  case Settled
  then show ?thesis by (simp add: resume_simps)
qed

text \<open>
  Every turn given to a message uses up one of its steps, so a fair schedule lets every
  message of the batch settle.
\<close>

lemma deliver_steps:
  assumes "length tasks = length ms" and "deliver env ms (s, tasks) i = (s1, tasks1)"
  shows "length tasks1 = length ms \<and>
         (\<forall>j < length ms. steps (tasks1 ! j) \<le> steps (tasks ! j) - (if i = j then 1 else 0))"
proof (cases "i < length ms")
  case True
  then have d: "tasks1 = tasks[i := fst (resume env (ms ! i) (tasks ! i) s)]"
    using assms deliver_in [of i tasks ms env s] by simp
  have "steps (tasks1 ! j) \<le> steps (tasks ! j) - (if i = j then 1 else 0)" if "j < length ms" for j
  proof (cases "i = j")
    case T: True
    then have "tasks1 ! j = fst (resume env (ms ! i) (tasks ! i) s)"
      unfolding d using that assms(1) by simp
    then show ?thesis using resume_steps [of env "ms ! i" "tasks ! i" s] T by simp
  next
    case False
    then show ?thesis unfolding d by simp
  qed
  then show ?thesis unfolding d using assms(1) by simp
next
  case False
  then have "tasks1 = tasks" using assms deliver_out [of i tasks ms env s] by simp
  then show ?thesis using assms(1) False by auto
qed

lemma runSchedule_steps:
  "length tasks = length ms \<Longrightarrow> runSchedule env ms sched (s, tasks) = (s', tasks') \<Longrightarrow>
   length tasks' = length ms \<and>
   (\<forall>j < length ms. steps (tasks' ! j) \<le> steps (tasks ! j) - count_list sched j)"
proof (induction sched arbitrary: s tasks)
  case Nil
  then show ?case by (simp add: runSchedule_Nil)
next
  case (Cons i sched)
  obtain s1 tasks1 where one: "deliver env ms (s, tasks) i = (s1, tasks1)"
    by (cases "deliver env ms (s, tasks) i")
  note d = deliver_steps [OF Cons.prems(1) one]
  have run: "runSchedule env ms sched (s1, tasks1) = (s', tasks')"
    using Cons.prems(2) unfolding runSchedule_Cons one .
  note ih = Cons.IH [OF d [THEN conjunct1] run]
  have "steps (tasks' ! j) \<le> steps (tasks ! j) - count_list (i # sched) j" if "j < length ms" for j
  proof -
    have a: "steps (tasks' ! j) \<le> steps (tasks1 ! j) - count_list sched j"
      using ih that by blast
    have b: "steps (tasks1 ! j) \<le> steps (tasks ! j) - (if i = j then 1 else 0)"
      using d that by blast
    show ?thesis using a b by (cases "i = j") simp_all
  qed
  then show ?case using ih by blast
qed














text \<open>One round of the polling loop on a batch that holds such a message.\<close>

lemma pollOnce_received:
  "sqsReceive env (calls s) = Inr ms \<Longrightarrow>
   pollOnce env sched s =
     (case runSchedule env ms sched (startAll env ms (logCall s ReceiveMessage True)) of
        (s', tasks) \<Rightarrow> if list_all isSettled tasks then Some s' else None)"
  by (simp add: pollOnce_def)




subsection \<open>A message alone in its batch\<close>

text \<open>
  With no other message to take turns with, the steps of a message add up to
  \<open>processMessage\<close>: whatever the schedule, a round that ends on a batch of one message
  leaves the state that \<open>processMessage\<close> gives.
\<close>

lemma record_cases:
  obtains
    (skip) "\<And>rs. startRecords env (x # rs) = startRecords env rs"
           "\<And>s. processRecord env x s = (Inr (), s)"
  | (bad) e where "\<And>rs. startRecords env (x # rs) = Inl e"
           "\<And>s. processRecord env x s = (Inl e, s)"
  | (obj) b k where "startsWith k ''cdn/''"
           "\<And>rs. startRecords env (x # rs) = Inr (AwaitHead b k rs)"
           "\<And>s. processRecord env x s = processS3Object env b k s"
proof (cases "eventName x")
  case None
  then have "\<And>rs. startRecords env (x # rs) = Inl TypeError"
    "\<And>s. processRecord env x s = (Inl TypeError, s)"
    by (simp_all add: processRecord_def)
  then show ?thesis by (rule bad)
next
  case (Some n)
  note n = Some
  show ?thesis
  proof (cases "startsWith n ''ObjectCreated:''")
    case False
    then have "\<And>rs. startRecords env (x # rs) = startRecords env rs"
      "\<And>s. processRecord env x s = (Inr (), s)"
      using n by (simp_all add: processRecord_def)
    then show ?thesis by (rule skip)
  next
    case True
    note created = True
    show ?thesis
    proof (cases "s3 x")
      case None
      then have "\<And>rs. startRecords env (x # rs) = Inl TypeError"
        "\<And>s. processRecord env x s = (Inl TypeError, s)"
        using n created by (simp_all add: processRecord_def)
      then show ?thesis by (rule bad)
    next
      case (Some loc)
      obtain b raw where loc: "s3 x = Some (b, raw)" using Some by (cases loc) simp
      show ?thesis
      proof (cases "decodeURIComponent env (plusToSpace raw)")
        case None
        then have "\<And>rs. startRecords env (x # rs) = Inl URIError"
          "\<And>s. processRecord env x s = (Inl URIError, s)"
          using n created loc by (simp_all add: processRecord_def)
        then show ?thesis by (rule bad)
      next
        case (Some k)
        show ?thesis
        proof (cases "startsWith k ''cdn/''")
          case True
          then have "\<And>rs. startRecords env (x # rs) = Inr (AwaitHead b k rs)"
            "\<And>s. processRecord env x s = processS3Object env b k s"
            using n created loc Some by (simp_all add: processRecord_def)
          with True show ?thesis by (rule obj)
        next
          case False
          then have "\<And>rs. startRecords env (x # rs) = startRecords env rs"
            "\<And>s. processRecord env x s = (Inr (), s)"
            using n created loc Some by (simp_all add: processRecord_def processS3Object_def)
          then show ?thesis by (rule skip)
        qed
      qed
    qed
  qed
qed

lemma startRecords_processRecords:
  "(\<forall>e. startRecords env rs = Inl e \<longrightarrow> processRecords env rs s = (Inl e, s)) \<and>
   (startRecords env rs = Inr AwaitDelete \<longrightarrow> processRecords env rs s = (Inr (), s)) \<and>
   (\<forall>b k rest. startRecords env rs = Inr (AwaitHead b k rest) \<longrightarrow>
      startsWith k ''cdn/'' \<and> length rest < length rs \<and>
      processRecords env rs s =
        (case processS3Object env b k s of
           (Inl e, s1) \<Rightarrow> (Inl e, s1)
         | (Inr u, s1) \<Rightarrow> processRecords env rest s1)) \<and>
   (\<forall>st. startRecords env rs = Inr st \<longrightarrow>
      st = AwaitDelete \<or> (\<exists>b k rest. st = AwaitHead b k rest))"
proof (induction rs)
  case Nil
  then show ?case by simp
next
  case (Cons x rs)
  show ?case
  proof (cases rule: record_cases [of env x])
    case skip
    have pr: "processRecords env (x # rs) s = processRecords env rs s"
      by (simp add: skip(2))
    have a: "\<forall>e. startRecords env rs = Inl e \<longrightarrow> processRecords env rs s = (Inl e, s)"
      and b: "startRecords env rs = Inr AwaitDelete \<longrightarrow> processRecords env rs s = (Inr (), s)"
      and d: "\<forall>st. startRecords env rs = Inr st \<longrightarrow>
                st = AwaitDelete \<or> (\<exists>b k rest. st = AwaitHead b k rest)"
      using Cons by blast+
    have c: "\<forall>b k rest. startRecords env rs = Inr (AwaitHead b k rest) \<longrightarrow>
        startsWith k ''cdn/'' \<and> length rest < length (x # rs) \<and>
        processRecords env rs s =
          (case processS3Object env b k s of
             (Inl e, s1) \<Rightarrow> (Inl e, s1)
           | (Inr u, s1) \<Rightarrow> processRecords env rest s1)"
    proof (intro allI impI)
      fix b k rest
      assume "startRecords env rs = Inr (AwaitHead b k rest)"
      then have "startsWith k ''cdn/'' \<and> length rest < length rs \<and>
        processRecords env rs s =
          (case processS3Object env b k s of
             (Inl e, s1) \<Rightarrow> (Inl e, s1)
           | (Inr u, s1) \<Rightarrow> processRecords env rest s1)"
        using Cons by blast
      then show "startsWith k ''cdn/'' \<and> length rest < length (x # rs) \<and>
        processRecords env rs s =
          (case processS3Object env b k s of
             (Inl e, s1) \<Rightarrow> (Inl e, s1)
           | (Inr u, s1) \<Rightarrow> processRecords env rest s1)"
        by simp
    qed
    show ?thesis unfolding skip(1) pr using a b c d by (intro conjI)
  next
    case (bad e)
    then show ?thesis by simp
  next
    case (obj b k)
    then show ?thesis by simp
  qed
qed

lemma settled_stays: "runSchedule env [m] sched (s, [Settled]) = (s, [Settled])"
proof (induction sched)
  case Nil
  then show ?case by (simp add: runSchedule_Nil)
next
  case (Cons i sched)
  have "deliver env [m] (s, [Settled]) i = (s, [Settled])"
    by (cases i) (simp_all add: deliver_def resume_Settled)
  then show ?case unfolding runSchedule_Cons using Cons by simp
qed

lemma runSchedule_append:
  "runSchedule env ms (a @ b) cfg = runSchedule env ms b (runSchedule env ms a cfg)"
  by (simp add: runSchedule_def)

lemma deliver_alone:
  "deliver env [m] (s, [st]) 0 = (snd (resume env m st s), [fst (resume env m st s)])"
  by (simp add: deliver_def split: prod.splits)

lemma deliver_nobody: "i \<noteq> 0 \<Longrightarrow> deliver env [m] (s, [st]) i = (s, [st])"
  by (simp add: deliver_def)

text \<open>
  Three answers to a message that waits for the metadata of an object are one
  \<open>processS3Object\<close>.
\<close>

lemma three_answers:
  assumes "startsWith k ''cdn/''"
  shows "runSchedule env [m] [0, 0, 0] (s, [AwaitHead b k rest]) =
     (case processS3Object env b k s of
        (Inl e, s1) \<Rightarrow> (countError s1, [Settled])
      | (Inr u, s1) \<Rightarrow>
          (snd (settle (startRecords env rest, s1)), [fst (settle (startRecords env rest, s1))]))"
proof (cases "s3Head env (calls s) b k")
  case (Inl e)
  then show ?thesis using assms
    by (simp add: runSchedule_def deliver_alone resume_simps processS3Object_def
        processS3Object_try_def countError_def)
next
  case (Inr metadata)
  note head = Inr
  let ?s1 = "logCall s (HeadObject b k) True"
  show ?thesis
  proof (cases "uploaderOf metadata")
    case None
    then show ?thesis using assms head
      by (simp add: runSchedule_def deliver_alone resume_simps processS3Object_def
          processS3Object_try_def countError_def)
  next
    case (Some u)
    note up = Some
    show ?thesis
    proof (cases "s3Get env (calls ?s1) b k")
      case (Inl e)
      then show ?thesis using assms head up
        by (simp add: runSchedule_def deliver_alone resume_simps processS3Object_def
            processS3Object_try_def countError_def)
    next
      case (Inr content)
      note get = Inr
      let ?s2 = "logCall ?s1 (GetObject b k) True"
      let ?d = "\<lparr> adminToken_n = ADMIN_TOKEN env, uhrpUrl_n = uhrpUrlForHash env content,
                  uploaderIdentityKey_n = u, objectIdentifier_n = lastSegment k,
                  expiryTime_n = expiryOf env (calls ?s1) metadata,
                  fileSize_n = ContentLength metadata \<rparr>"
      show ?thesis
      proof (cases "axiosPost env (calls ?s2) ?d")
        case (Inl e)
        then show ?thesis using assms head up get
          by (simp add: runSchedule_def deliver_alone resume_simps processS3Object_def
              processS3Object_try_def countError_def Let_def)
      next
        case (Inr x)
        have pe: "processedEvents ?s2 = processedEvents s" by (simp add: logCall_def)
        show ?thesis using assms head up get Inr pe
          by (simp add: runSchedule_def deliver_alone resume_simps processS3Object_def
              processS3Object_try_def Let_def)
      qed
    qed
  qed
qed

lemma alone_records:
  "steps (fst (settle (startRecords env rs, s))) \<le> k \<Longrightarrow>
   runSchedule env [m] (replicate k 0)
     (snd (settle (startRecords env rs, s)), [fst (settle (startRecords env rs, s))])
   = (afterRecords env m (processRecords env rs s), [Settled])"
proof (induction rs arbitrary: s k rule: length_induct)
  case (1 rs)
  note sp = startRecords_processRecords [of env rs s]
  show ?case
  proof (cases "startRecords env rs")
    case (Inl e)
    then have "processRecords env rs s = (Inl e, s)" using sp by blast
    then show ?thesis using Inl by (simp add: state_simps settled_stays afterRecords_def)
  next
    case (Inr st)
    then consider "st = AwaitDelete" | b k' rest where "st = AwaitHead b k' rest"
      using sp by blast
    then show ?thesis
    proof cases
      case 1
      then have seq: "processRecords env rs s = (Inr (), s)" using sp Inr by blast
      from "1.prems" obtain k1 where k: "k = Suc k1"
        using Inr 1 by (cases k) (simp_all add: state_simps)
      have "runSchedule env [m] (replicate k 0) (s, [AwaitDelete])
          = runSchedule env [m] (replicate k1 0)
              (snd (resume env m AwaitDelete s), [fst (resume env m AwaitDelete s)])"
        unfolding k by (simp add: runSchedule_Cons deliver_alone)
      moreover have "fst (resume env m AwaitDelete s) = Settled"
        by (simp add: resume_simps split: sum.splits)
      ultimately show ?thesis using Inr 1 seq
        by (simp add: state_simps settled_stays afterRecords_def)
    next
      case 2
      from sp Inr 2 have cdn: "startsWith k' ''cdn/''" and shorter: "length rest < length rs"
        and seq: "processRecords env rs s =
          (case processS3Object env b k' s of
             (Inl e, s1) \<Rightarrow> (Inl e, s1)
           | (Inr u, s1) \<Rightarrow> processRecords env rest s1)"
        by blast+
      from "1.prems" have big: "3 * length rest + 4 \<le> k"
        using Inr 2 by (simp add: state_simps)
      define k1 where "k1 = k - 3"
      have k: "k = Suc (Suc (Suc k1))" and k1: "3 * length rest + 1 \<le> k1"
        using big unfolding k1_def by simp_all
      have split: "replicate k (0::nat) = [0, 0, 0] @ replicate k1 0"
        unfolding k by simp
      obtain res s1 where obj: "processS3Object env b k' s = (res, s1)"
        by (cases "processS3Object env b k' s")
      show ?thesis
      proof (cases res)
        case (Inl e)
        then show ?thesis using Inr 2 obj seq
          unfolding split runSchedule_append
          by (simp add: state_simps three_answers [OF cdn] settled_stays afterRecords_def)
      next
        case (Inr u)
        have enough: "steps (fst (settle (startRecords env rest, s1))) \<le> k1"
          using settle_steps [of "startRecords env rest" "3 * length rest + 1" s1]
            startRecords_steps [of env rest] k1
          by (meson le_trans)
        from "1.IH" shorter enough have
          "runSchedule env [m] (replicate k1 0)
             (snd (settle (startRecords env rest, s1)), [fst (settle (startRecords env rest, s1))])
           = (afterRecords env m (processRecords env rest s1), [Settled])"
          by blast
        then show ?thesis using \<open>startRecords env rs = Inr st\<close> 2 obj seq Inr
          unfolding split runSchedule_append
          by (simp add: state_simps three_answers [OF cdn])
      qed
    qed
  qed
qed

lemma processMessage_afterRecords:
  assumes "Body m \<noteq> Unparseable"
  shows "snd (processMessage env m s) = afterRecords env m (processRecords env (recordsOf m) s)"
proof -
  obtain res s1 where loop: "processRecords env (recordsOf m) s = (res, s1)"
    by (cases "processRecords env (recordsOf m) s")
  show ?thesis
    unfolding processMessage_def processMessage_try_parsed [OF assms] loop
    by (cases res; cases "sqsDelete env (calls s1) (ReceiptHandle m)")
       (simp_all add: afterRecords_def resume_simps countError_def)
qed

lemma alone_message:
  assumes "steps (fst (startMessage env m s)) \<le> k"
  shows "runSchedule env [m] (replicate k 0) (startAll env [m] s)
           = (snd (processMessage env m s), [Settled])"
proof (cases "Body m")
  case Unparseable
  then show ?thesis
    by (simp add: startMessage_def state_simps settled_stays processMessage_def
        processMessage_try_def countError_def)
next
  case NoRecords
  then have p: "Body m \<noteq> Unparseable" by simp
  have "startRecords env [] = Inr AwaitDelete" by simp
  then have "runSchedule env [m] (replicate k 0) (s, [AwaitDelete])
      = (afterRecords env m (processRecords env [] s), [Settled])"
    using alone_records [of env "[]" s k m] assms NoRecords
    by (simp add: startMessage_def state_simps)
  then show ?thesis using NoRecords processMessage_afterRecords [OF p, of env s]
    by (simp add: startMessage_def state_simps recordsOf_def)
next
  case (Records rs)
  then have p: "Body m \<noteq> Unparseable" by simp
  have st: "startMessage env m s = settle (startRecords env rs, s)"
    using Records by (simp add: startMessage_def)
  have "runSchedule env [m] (replicate k 0)
     (snd (settle (startRecords env rs, s)), [fst (settle (startRecords env rs, s))])
     = (afterRecords env m (processRecords env rs s), [Settled])"
    using assms unfolding st by (rule alone_records)
  then show ?thesis using Records processMessage_afterRecords [OF p, of env s]
    by (cases "settle (startRecords env rs, s)") (simp add: st recordsOf_def)
qed

lemma alone_schedule:
  "runSchedule env [m] sched (s, [st])
     = runSchedule env [m] (replicate (count_list sched 0) 0) (s, [st])"
proof (induction sched arbitrary: s st)
  case Nil
  then show ?case by simp
next
  case (Cons i sched)
  show ?case
  proof (cases "i = 0")
    case True
    then show ?thesis
      using Cons [of "snd (resume env m st s)" "fst (resume env m st s)"]
      by (simp add: runSchedule_Cons deliver_alone)
  next
    case False
    then show ?thesis using Cons [of s st]
      by (simp add: runSchedule_Cons deliver_nobody)
  qed
qed

lemma pollOnce_alone:
  assumes recv: "sqsReceive env (calls s) = Inr [m]"
    and fin: "pollOnce env sched s = Some s'"
  shows "s' = snd (processMessage env m (logCall s ReceiveMessage True))"
proof -
  let ?s0 = "logCall s ReceiveMessage True"
  let ?k = "count_list sched 0"
  obtain st s1 where sm: "startMessage env m ?s0 = (st, s1)" by (cases "startMessage env m ?s0")
  then have sa: "startAll env [m] ?s0 = (s1, [st])" by simp
  obtain s2 tasks' where run: "runSchedule env [m] sched (s1, [st]) = (s2, tasks')"
    by (cases "runSchedule env [m] sched (s1, [st])")
  have settled: "list_all isSettled tasks'" and s2: "s2 = s'"
    using fin unfolding pollOnce_received [OF recv] sa run by (simp_all split: if_splits)
  have run': "runSchedule env [m] (replicate ?k 0) (s1, [st]) = (s', tasks')"
    using run s2 alone_schedule [of env m sched s1 st] by simp
  let ?n = "steps st"
  have "runSchedule env [m] (replicate (?k + ?n) 0) (s1, [st])
      = runSchedule env [m] (replicate ?n 0) (s', tasks')"
    unfolding replicate_add runSchedule_append run' ..
  moreover have "length tasks' = length [m]"
    using runSchedule_steps [of "[st]" "[m]" env sched s1 s2 tasks'] run by simp
  then have "tasks' = [Settled]"
    using settled by (cases tasks') (simp_all add: isSettled_iff)
  ultimately have "runSchedule env [m] (replicate (?k + ?n) 0) (s1, [st]) = (s', [Settled])"
    by (simp add: settled_stays)
  moreover have "runSchedule env [m] (replicate (?k + ?n) 0) (startAll env [m] ?s0)
      = (snd (processMessage env m ?s0), [Settled])"
    by (rule alone_message) (simp add: sm)
  ultimately show ?thesis unfolding sa by simp
qed



end
